theory Spec2Isabelle
  imports Main
begin

section \<open>The spintax parser (src/backend/queue.js, lines 43-56, parseSpintax)\<close>

text \<open>
  JavaScript strings are modelled as \<open>string\<close> (lists of characters). The regular
  expression of the source is \<^verbatim>\<open>/\{([^{}]*\|[^{}]*)\}/g\<close>: an opening brace, a run of
  characters none of which is a brace and one of which is a pipe, and a closing brace.
  Neither starred class can step over a brace, so the only candidate for the closing
  brace of a match that starts at a given opening brace is the first brace after it;
  the captured group is the whole run between the two.
\<close>

definition notBrace :: "char \<Rightarrow> bool" where
  "notBrace c \<longleftrightarrow> c \<noteq> CHR ''{'' \<and> c \<noteq> CHR ''}''"

text \<open>
  \<open>matchAt s\<close> anchors the regular expression at the first character of \<open>s\<close>; on a
  match it returns the captured group and the text after the match.
\<close>

fun matchAt :: "string \<Rightarrow> (string \<times> string) option" where
  "matchAt [] = None"
| "matchAt (c # t) =
     (if c = CHR ''{'' then
        (case dropWhile notBrace t of
           [] \<Rightarrow> None
         | d # r \<Rightarrow>
             if d = CHR ''}'' \<and> CHR ''|'' \<in> set (takeWhile notBrace t)
             then Some (takeWhile notBrace t, r) else None)
      else None)"

text \<open>\<open>spintaxRegex.test(result)\<close>: is there a match anywhere in the text. Every call
  of the source starts at \<open>lastIndex = 0\<close>: a failed \<open>test\<close> and a finished global
  \<open>replace\<close> both reset it.\<close>

fun spintaxRegex_test :: "string \<Rightarrow> bool" where
  "spintaxRegex_test [] = False"
| "spintaxRegex_test (c # t) = (matchAt (c # t) \<noteq> None \<or> spintaxRegex_test t)"

text \<open>\<open>contents.split('|')\<close>: the pieces between the separators, empty pieces kept.\<close>

fun split :: "char \<Rightarrow> string \<Rightarrow> string list" where
  "split sep [] = [[]]"
| "split sep (c # cs) =
     (if c = sep then [] # split sep cs
      else (case split sep cs of
              [] \<Rightarrow> [[c]]
            | piece # pieces \<Rightarrow> (c # piece) # pieces))"

text \<open>
  \<open>Math.random()\<close> is an oracle \<open>rnd\<close>: \<open>rnd k\<close> stands for the \<open>k\<close>-th draw of the
  run, read modulo the number of options, since \<open>Math.floor(Math.random() * n)\<close> ranges
  over exactly \<open>0 .. n - 1\<close>. The number of draws made so far is threaded through.
\<close>

definition pickOption :: "(nat \<Rightarrow> nat) \<Rightarrow> nat \<Rightarrow> string \<Rightarrow> string" where
  "pickOption rnd k contents =
     (let options = split CHR ''|'' contents
      in options ! (rnd k mod length options))"

text \<open>
  \<open>result.replace(spintaxRegex, callback)\<close> with the global flag: one scan from left
  to right, every match replaced by what the callback returns, the scan going on after
  the match; a character at which no match starts is copied.
\<close>

function replaceAll :: "(nat \<Rightarrow> nat) \<Rightarrow> nat \<Rightarrow> string \<Rightarrow> string \<times> nat" where
  "replaceAll rnd k [] = ([], k)"
| "replaceAll rnd k (c # t) =
     (case matchAt (c # t) of
        Some (contents, rest) \<Rightarrow>
          (case replaceAll rnd (Suc k) rest of
             (out, k') \<Rightarrow> (pickOption rnd k contents @ out, k'))
      | None \<Rightarrow>
          (case replaceAll rnd k t of
             (out, k') \<Rightarrow> (c # out, k')))"
  by pat_completeness auto

lemma matchAt_SomeD:
  assumes "matchAt s = Some (contents, rest)"
  shows "s = CHR ''{'' # contents @ CHR ''}'' # rest"
    and "\<forall>x\<in>set contents. notBrace x"
    and "CHR ''|'' \<in> set contents"
proof -
  obtain c t where s: "s = c # t"
    using assms by (cases s) auto
  from assms s have c: "c = CHR ''{''"
    by (auto split: if_splits)
  from assms s c obtain d r where dr: "dropWhile notBrace t = d # r"
    by (auto split: list.splits)
  from assms s c dr have *: "d = CHR ''}''" "CHR ''|'' \<in> set (takeWhile notBrace t)"
    "contents = takeWhile notBrace t" "rest = r"
    by (auto split: if_splits)
  have "t = takeWhile notBrace t @ dropWhile notBrace t"
    by simp
  with s c dr * show "s = CHR ''{'' # contents @ CHR ''}'' # rest"
    by simp
  from * show "\<forall>x\<in>set contents. notBrace x"
    by (auto dest: set_takeWhileD)
  from * show "CHR ''|'' \<in> set contents"
    by simp
qed

lemma matchAt_shorter: "matchAt s = Some (contents, rest) \<Longrightarrow> length rest < length s"
  by (drule matchAt_SomeD(1)) simp

termination replaceAll
  by (relation "measure (\<lambda>(rnd, k, s). length s)") (auto dest: matchAt_shorter simp del: matchAt.simps)


text \<open>The number of opening braces of a text: every match that is replaced takes one
  away and the replacement brings none back.\<close>

definition opens :: "string \<Rightarrow> nat" where
  "opens s = length (filter (\<lambda>c. c = CHR ''{'') s)"

lemma opens_simps [simp]:
  "opens [] = 0"
  "opens (c # s) = (if c = CHR ''{'' then Suc (opens s) else opens s)"
  "opens (s @ t) = opens s + opens t"
  by (simp_all add: opens_def)

lemma opens_notBrace: "\<forall>x\<in>set s. notBrace x \<Longrightarrow> opens s = 0"
  by (induction s) (auto simp: notBrace_def)

lemma split_not_Nil: "split sep s \<noteq> []"
  by (induction s) (auto split: list.splits)

lemma split_pieces_all: "\<forall>piece\<in>set (split sep s). set piece \<subseteq> set s"
  by (induction s) (auto split: list.splits)

lemma split_pieces: "piece \<in> set (split sep s) \<Longrightarrow> set piece \<subseteq> set s"
  using split_pieces_all by blast

lemma pickOption_mem: "pickOption rnd k contents \<in> set (split CHR ''|'' contents)"
proof -
  have "rnd k mod length (split CHR ''|'' contents) < length (split CHR ''|'' contents)"
    using split_not_Nil [of "CHR ''|''" contents] by simp
  then show ?thesis
    unfolding pickOption_def Let_def by (rule nth_mem)
qed

lemma pickOption_subset: "set (pickOption rnd k contents) \<subseteq> set contents"
  using pickOption_mem by (rule split_pieces)

lemma opens_pickOption:
  "\<forall>x\<in>set contents. notBrace x \<Longrightarrow> opens (pickOption rnd k contents) = 0"
  using pickOption_subset [of rnd k contents] by (intro opens_notBrace) blast

declare matchAt.simps(2) [simp del]

lemma replaceAll_opens:
  "opens (fst (replaceAll rnd k s)) \<le> opens s \<and>
   (spintaxRegex_test s \<longrightarrow> opens (fst (replaceAll rnd k s)) < opens s)"
proof (induction rnd k s rule: replaceAll.induct)
  case (1 rnd k)
  show ?case by simp
next
  case (2 rnd k c t)
  show ?case
  proof (cases "matchAt (c # t)")
    case None
    with "2.IH"(1) [OF None] show ?thesis
      by (auto split: prod.splits)
  next
    case (Some m)
    obtain contents rest where m: "m = (contents, rest)"
      by (cases m)
    from Some m have ct: "c # t = CHR ''{'' # contents @ CHR ''}'' # rest"
      and nb: "\<forall>x\<in>set contents. notBrace x"
      by (auto dest: matchAt_SomeD)
    from ct have "opens (c # t) = Suc (opens contents + opens rest)"
      by simp
    with nb have o: "opens (c # t) = Suc (opens rest)"
      by (simp add: opens_notBrace)
    from "2.IH"(2) [OF Some m [symmetric]]
    have "opens (fst (replaceAll rnd (Suc k) rest)) \<le> opens rest"
      by simp
    with Some m nb o show ?thesis
      by (auto simp: opens_pickOption split: prod.splits)
  qed
qed

text \<open>
  The \<open>while\<close> loop of the source: as long as the regular expression matches somewhere,
  replace every match and scan the new text again. The source has no counter and no
  cap on the number of passes.
\<close>

function parseLoop :: "(nat \<Rightarrow> nat) \<Rightarrow> nat \<Rightarrow> string \<Rightarrow> string \<times> nat" where
  "parseLoop rnd k result =
     (if spintaxRegex_test result then
        (case replaceAll rnd k result of (result', k') \<Rightarrow> parseLoop rnd k' result')
      else (result, k))"
  by pat_completeness auto

termination parseLoop
proof (relation "measure (\<lambda>(rnd, k, s). opens s)", goal_cases)
  case 1
  show ?case by simp
next
  case (2 rnd k result x y)
  from 2(2) have "fst (replaceAll rnd k result) = x"
    by (metis fst_conv)
  with 2(1) show ?case
    using replaceAll_opens [of rnd k result] by simp
qed

declare parseLoop.simps [simp del]

text \<open>How often the body of that loop runs (the loop itself keeps no count).\<close>

function passCount :: "(nat \<Rightarrow> nat) \<Rightarrow> nat \<Rightarrow> string \<Rightarrow> nat" where
  "passCount rnd k result =
     (if spintaxRegex_test result then
        (case replaceAll rnd k result of (result', k') \<Rightarrow> Suc (passCount rnd k' result'))
      else 0)"
  by pat_completeness auto

termination passCount
proof (relation "measure (\<lambda>(rnd, k, s). opens s)", goal_cases)
  case 1
  show ?case by simp
next
  case (2 rnd k result x y)
  from 2(2) have "fst (replaceAll rnd k result) = x"
    by (metis fst_conv)
  with 2(1) show ?case
    using replaceAll_opens [of rnd k result] by simp
qed

declare passCount.simps [simp del]

text \<open>\<open>if (!text) return text\<close>: the empty string is returned as it is.\<close>

definition parseSpintax :: "(nat \<Rightarrow> nat) \<Rightarrow> string \<Rightarrow> string" where
  "parseSpintax rnd text = (if text = [] then text else fst (parseLoop rnd 0 text))"


subsection \<open>What the regular expression matches\<close>

lemma matchAt_not_open: "c \<noteq> CHR ''{'' \<Longrightarrow> matchAt (c # t) = None"
  by (simp add: matchAt.simps)

lemma takeWhile_stop: "\<not> P x \<Longrightarrow> takeWhile P (m @ x # ys) = takeWhile P m"
  by (induction m) auto

lemma dropWhile_stop:
  "\<forall>y\<in>set m. P y \<Longrightarrow> \<not> P x \<Longrightarrow> dropWhile P (m @ x # ys) = x # ys"
  by (induction m) auto

lemma matchAt_iff:
  "matchAt u = Some (contents, rest) \<longleftrightarrow>
     u = CHR ''{'' # contents @ CHR ''}'' # rest \<and>
     (\<forall>x\<in>set contents. notBrace x) \<and> CHR ''|'' \<in> set contents"
proof
  assume "matchAt u = Some (contents, rest)"
  then show "u = CHR ''{'' # contents @ CHR ''}'' # rest \<and>
     (\<forall>x\<in>set contents. notBrace x) \<and> CHR ''|'' \<in> set contents"
    using matchAt_SomeD [of u contents rest] by simp
next
  assume r: "u = CHR ''{'' # contents @ CHR ''}'' # rest \<and>
     (\<forall>x\<in>set contents. notBrace x) \<and> CHR ''|'' \<in> set contents"
  then have nb: "\<forall>x\<in>set contents. notBrace x"
    by simp
  have cl: "\<not> notBrace CHR ''}''"
    by (simp add: notBrace_def)
  from nb cl have "takeWhile notBrace (contents @ CHR ''}'' # rest) = contents"
    by simp
  moreover from nb have "dropWhile notBrace (contents @ CHR ''}'' # rest) = CHR ''}'' # rest"
    by (rule dropWhile_stop) (rule cl)
  ultimately show "matchAt u = Some (contents, rest)"
    using r by (simp add: matchAt.simps)
qed

lemma spintaxRegex_test_suffix:
  "spintaxRegex_test s \<longleftrightarrow> (\<exists>pre u. s = pre @ u \<and> matchAt u \<noteq> None)"
proof (induction s)
  case Nil
  show ?case by simp
next
  case (Cons c t)
  show ?case
  proof
    assume "spintaxRegex_test (c # t)"
    then consider "matchAt (c # t) \<noteq> None" | "spintaxRegex_test t"
      by auto
    then show "\<exists>pre u. c # t = pre @ u \<and> matchAt u \<noteq> None"
    proof cases
      case 1
      then have "c # t = [] @ (c # t) \<and> matchAt (c # t) \<noteq> None"
        by simp
      then show ?thesis by blast
    next
      case 2
      with Cons.IH obtain pre u where "t = pre @ u" "matchAt u \<noteq> None"
        by blast
      then have "c # t = (c # pre) @ u \<and> matchAt u \<noteq> None"
        by simp
      then show ?thesis by blast
    qed
  next
    assume "\<exists>pre u. c # t = pre @ u \<and> matchAt u \<noteq> None"
    then obtain pre u where pu: "c # t = pre @ u" "matchAt u \<noteq> None"
      by blast
    show "spintaxRegex_test (c # t)"
    proof (cases pre)
      case Nil
      with pu have "matchAt (c # t) \<noteq> None"
        by simp
      then show ?thesis by simp
    next
      case (Cons c' pre')
      with pu have "t = pre' @ u"
        by simp
      with pu(2) Cons.IH have "spintaxRegex_test t"
        by blast
      then show ?thesis by simp
    qed
  qed
qed

text \<open>The test in words: somewhere in the text stands an opening brace, a run without
  braces that holds a pipe, and a closing brace.\<close>

lemma spintaxRegex_test_iff:
  "spintaxRegex_test s \<longleftrightarrow>
     (\<exists>pre a b post. s = pre @ CHR ''{'' # a @ CHR ''|'' # b @ CHR ''}'' # post \<and>
        (\<forall>x\<in>set (a @ b). notBrace x))"
proof
  assume "spintaxRegex_test s"
  then obtain pre u where s: "s = pre @ u" and "matchAt u \<noteq> None"
    using spintaxRegex_test_suffix by blast
  then obtain contents rest where "matchAt u = Some (contents, rest)"
    by auto
  then have u: "u = CHR ''{'' # contents @ CHR ''}'' # rest"
    and nb: "\<forall>x\<in>set contents. notBrace x" and "CHR ''|'' \<in> set contents"
    using matchAt_iff by auto
  then obtain a b where c: "contents = a @ CHR ''|'' # b"
    by (auto dest: split_list)
  from s u c have "s = pre @ CHR ''{'' # a @ CHR ''|'' # b @ CHR ''}'' # rest"
    by simp
  moreover from nb c have "\<forall>x\<in>set (a @ b). notBrace x"
    by auto
  ultimately show "\<exists>pre a b post. s = pre @ CHR ''{'' # a @ CHR ''|'' # b @ CHR ''}'' # post \<and>
        (\<forall>x\<in>set (a @ b). notBrace x)"
    by blast
next
  assume "\<exists>pre a b post. s = pre @ CHR ''{'' # a @ CHR ''|'' # b @ CHR ''}'' # post \<and>
        (\<forall>x\<in>set (a @ b). notBrace x)"
  then obtain pre a b post where s: "s = pre @ CHR ''{'' # a @ CHR ''|'' # b @ CHR ''}'' # post"
    and nb: "\<forall>x\<in>set (a @ b). notBrace x"
    by blast
  from nb have "\<forall>x\<in>set (a @ CHR ''|'' # b). notBrace x"
    by (auto simp: notBrace_def)
  then have "matchAt (CHR ''{'' # (a @ CHR ''|'' # b) @ CHR ''}'' # post) = Some (a @ CHR ''|'' # b, post)"
    using matchAt_iff [of "CHR ''{'' # (a @ CHR ''|'' # b) @ CHR ''}'' # post" "a @ CHR ''|'' # b" post]
    by simp
  then have "s = pre @ (CHR ''{'' # (a @ CHR ''|'' # b) @ CHR ''}'' # post) \<and>
      matchAt (CHR ''{'' # (a @ CHR ''|'' # b) @ CHR ''}'' # post) \<noteq> None"
    using s by simp
  then show "spintaxRegex_test s"
    using spintaxRegex_test_suffix by blast
qed

subsection \<open>One pass and the loop\<close>

lemma no_open_no_match: "CHR ''{'' \<notin> set s \<Longrightarrow> \<not> spintaxRegex_test s"
  by (induction s) (auto simp: matchAt_not_open)

lemma replaceAll_no_match: "\<not> spintaxRegex_test s \<Longrightarrow> replaceAll rnd k s = (s, k)"
proof (induction s)
  case Nil
  show ?case by simp
next
  case (Cons c t)
  then have "matchAt (c # t) = None" and "replaceAll rnd k t = (t, k)"
    by (cases "matchAt (c # t)", auto)+
  then show ?case by simp
qed

lemma parseLoop_no_match: "\<not> spintaxRegex_test (fst (parseLoop rnd k s))"
proof (induction rnd k s rule: parseLoop.induct)
  case (1 rnd k result)
  show ?case
  proof (cases "spintaxRegex_test result")
    case False
    then show ?thesis by (simp add: parseLoop.simps)
  next
    case True
    obtain r' k' where r: "replaceAll rnd k result = (r', k')"
      by (cases "replaceAll rnd k result")
    from "1.IH" [OF True r [symmetric]] True r show ?thesis
      by (subst parseLoop.simps) simp
  qed
qed

lemma passCount_le_opens: "passCount rnd k s \<le> opens s"
proof (induction rnd k s rule: passCount.induct)
  case (1 rnd k result)
  show ?case
  proof (cases "spintaxRegex_test result")
    case False
    then show ?thesis by (simp add: passCount.simps)
  next
    case True
    obtain r' k' where r: "replaceAll rnd k result = (r', k')"
      by (cases "replaceAll rnd k result")
    from True r have "opens r' < opens result"
      using replaceAll_opens [of rnd k result] by simp
    with "1.IH" [OF True r [symmetric]] True r show ?thesis
      by (subst passCount.simps) simp
  qed
qed


text \<open>One pass of the loop body on the pair of the text and the number of draws.\<close>

definition pass :: "(nat \<Rightarrow> nat) \<Rightarrow> string \<times> nat \<Rightarrow> string \<times> nat" where
  "pass rnd = (\<lambda>(t, j). replaceAll rnd j t)"

lemma parseLoop_funpow: "parseLoop rnd k s = (pass rnd ^^ passCount rnd k s) (s, k)"
proof (induction rnd k s rule: parseLoop.induct)
  case (1 rnd k result)
  show ?case
  proof (cases "spintaxRegex_test result")
    case False
    then show ?thesis
      by (simp add: parseLoop.simps passCount.simps)
  next
    case True
    obtain r' k' where r: "replaceAll rnd k result = (r', k')"
      by (cases "replaceAll rnd k result")
    from True r have "parseLoop rnd k result = parseLoop rnd k' r'"
      by (subst parseLoop.simps) simp
    moreover from True r have "passCount rnd k result = Suc (passCount rnd k' r')"
      by (subst passCount.simps) simp
    moreover from r have "pass rnd (result, k) = (r', k')"
      by (simp add: pass_def)
    ultimately show ?thesis
      using "1.IH" [OF True r [symmetric]] by (simp add: funpow_swap1)
  qed
qed

lemma passCount_tests:
  "\<forall>m<passCount rnd k s. spintaxRegex_test (fst ((pass rnd ^^ m) (s, k)))"
proof (induction rnd k s rule: passCount.induct)
  case (1 rnd k result)
  show ?case
  proof (cases "spintaxRegex_test result")
    case False
    then show ?thesis
      by (simp add: passCount.simps)
  next
    case True
    obtain r' k' where r: "replaceAll rnd k result = (r', k')"
      by (cases "replaceAll rnd k result")
    from True r have pc: "passCount rnd k result = Suc (passCount rnd k' r')"
      by (subst passCount.simps) simp
    from r have p: "pass rnd (result, k) = (r', k')"
      by (simp add: pass_def)
    show ?thesis
    proof (intro allI impI)
      fix m
      assume m: "m < passCount rnd k result"
      show "spintaxRegex_test (fst ((pass rnd ^^ m) (result, k)))"
      proof (cases m)
        case 0
        with True show ?thesis by simp
      next
        case (Suc m')
        with m pc have "m' < passCount rnd k' r'"
          by simp
        with "1.IH" [OF True r [symmetric]]
        have "spintaxRegex_test (fst ((pass rnd ^^ m') (r', k')))"
          by blast
        with Suc p show ?thesis
          by (simp add: funpow_swap1)
      qed
    qed
  qed
qed

subsection \<open>Spans without a pipe\<close>

lemma matchAt_no_pipe:
  "CHR ''|'' \<notin> set m \<Longrightarrow> matchAt (c # m @ CHR ''}'' # post) = None"
proof -
  assume np: "CHR ''|'' \<notin> set m"
  have "\<not> notBrace CHR ''}''"
    by (simp add: notBrace_def)
  then have "takeWhile notBrace (m @ CHR ''}'' # post) = takeWhile notBrace m"
    by (rule takeWhile_stop)
  with np have "CHR ''|'' \<notin> set (takeWhile notBrace (m @ CHR ''}'' # post))"
    by (auto dest: set_takeWhileD)
  then show ?thesis
    by (simp add: matchAt.simps split: list.splits)
qed

lemma replaceAll_span:
  "CHR ''|'' \<notin> set m \<Longrightarrow>
   replaceAll rnd k (m @ CHR ''}'' # post) =
     (case replaceAll rnd k post of (b, k') \<Rightarrow> (m @ CHR ''}'' # b, k'))"
proof (induction m)
  case Nil
  show ?case
    by (simp add: matchAt_not_open split: prod.splits)
next
  case (Cons c m)
  then have "matchAt (c # m @ CHR ''}'' # post) = None"
    by (simp add: matchAt_no_pipe)
  with Cons show ?case
    by (simp split: prod.splits)
qed

lemma spintaxRegex_test_span:
  "CHR ''|'' \<notin> set m \<Longrightarrow>
   spintaxRegex_test (m @ CHR ''}'' # post) = spintaxRegex_test post"
proof (induction m)
  case Nil
  show ?case
    by (simp add: matchAt_not_open)
next
  case (Cons c m)
  then have "matchAt (c # m @ CHR ''}'' # post) = None"
    by (simp add: matchAt_no_pipe)
  with Cons show ?case
    by simp
qed

lemma matchAt_append_open:
  "matchAt (c # u @ CHR ''{'' # Y) =
     map_option (\<lambda>(a, r). (a, r @ CHR ''{'' # Y)) (matchAt (c # u))"
proof (cases "\<forall>x\<in>set u. notBrace x")
  case True
  have op: "\<not> notBrace CHR ''{''"
    by (simp add: notBrace_def)
  from True have d1: "dropWhile notBrace (u @ CHR ''{'' # Y) = CHR ''{'' # Y"
    by (rule dropWhile_stop) (rule op)
  from True have d2: "dropWhile notBrace u = []"
    by simp
  show ?thesis
    unfolding matchAt.simps d1 d2 by simp
next
  case False
  then have d1: "dropWhile notBrace (u @ CHR ''{'' # Y) = dropWhile notBrace u @ CHR ''{'' # Y"
    and t1: "takeWhile notBrace (u @ CHR ''{'' # Y) = takeWhile notBrace u"
    by (auto simp: dropWhile_append1 takeWhile_append1)
  from False obtain d r where d2: "dropWhile notBrace u = d # r"
    by (cases "dropWhile notBrace u") (auto simp: dropWhile_eq_Nil_conv)
  show ?thesis
    unfolding matchAt.simps d1 t1 d2 by simp
qed

lemma replaceAll_append_open:
  "replaceAll rnd k (pre @ CHR ''{'' # Y) =
     (case replaceAll rnd k pre of
        (a, k1) \<Rightarrow> (case replaceAll rnd k1 (CHR ''{'' # Y) of (b, k2) \<Rightarrow> (a @ b, k2)))"
proof (induction rnd k pre rule: replaceAll.induct)
  case (1 rnd k)
  show ?case
    by (simp split: prod.splits)
next
  case (2 rnd k c t)
  show ?case
  proof (cases "matchAt (c # t)")
    case None
    then have "matchAt (c # t @ CHR ''{'' # Y) = None"
      by (simp add: matchAt_append_open)
    with None "2.IH"(1) [OF None] show ?thesis
      by (simp split: prod.splits)
  next
    case (Some m)
    obtain contents rest where m: "m = (contents, rest)"
      by (cases m)
    with Some have "matchAt (c # t @ CHR ''{'' # Y) = Some (contents, rest @ CHR ''{'' # Y)"
      by (simp add: matchAt_append_open)
    with Some m "2.IH"(2) [OF Some m [symmetric]] show ?thesis
      by (simp split: prod.splits)
  qed
qed

lemma spintaxRegex_test_append_open:
  "spintaxRegex_test (pre @ CHR ''{'' # Y) \<longleftrightarrow>
     spintaxRegex_test pre \<or> spintaxRegex_test (CHR ''{'' # Y)"
proof (induction pre)
  case Nil
  show ?case by simp
next
  case (Cons c t)
  have "matchAt (c # t @ CHR ''{'' # Y) \<noteq> None \<longleftrightarrow> matchAt (c # t) \<noteq> None"
    by (simp add: matchAt_append_open)
  with Cons show ?case
    by auto
qed

lemma replaceAll_around_span:
  assumes "CHR ''|'' \<notin> set mid"
  shows "replaceAll rnd k (pre @ CHR ''{'' # mid @ CHR ''}'' # post) =
     (case replaceAll rnd k pre of
        (a, k1) \<Rightarrow> (case replaceAll rnd k1 post of
                     (b, k2) \<Rightarrow> (a @ CHR ''{'' # mid @ CHR ''}'' # b, k2)))"
proof -
  from assms have "CHR ''|'' \<notin> set (CHR ''{'' # mid)"
    by simp
  then have "replaceAll rnd j ((CHR ''{'' # mid) @ CHR ''}'' # post) =
      (case replaceAll rnd j post of (b, k') \<Rightarrow> ((CHR ''{'' # mid) @ CHR ''}'' # b, k'))" for j
    by (rule replaceAll_span)
  then show ?thesis
    by (simp add: replaceAll_append_open split: prod.splits)
qed

lemma spintaxRegex_test_around_span:
  assumes "CHR ''|'' \<notin> set mid"
  shows "spintaxRegex_test (pre @ CHR ''{'' # mid @ CHR ''}'' # post) \<longleftrightarrow>
     spintaxRegex_test pre \<or> spintaxRegex_test post"
proof -
  from assms have "CHR ''|'' \<notin> set (CHR ''{'' # mid)"
    by simp
  then have "spintaxRegex_test ((CHR ''{'' # mid) @ CHR ''}'' # post) = spintaxRegex_test post"
    by (rule spintaxRegex_test_span)
  then show ?thesis
    by (simp only: spintaxRegex_test_append_open append_Cons append_Nil)
qed

lemma parseLoop_keeps_span:
  assumes "CHR ''|'' \<notin> set mid"
  shows "\<forall>pre post. s = pre @ CHR ''{'' # mid @ CHR ''}'' # post \<longrightarrow>
     (\<exists>X Y. fst (parseLoop rnd k s) = X @ CHR ''{'' # mid @ CHR ''}'' # Y)"
proof (induction rnd k s rule: parseLoop.induct)
  case (1 rnd k result)
  show ?case
  proof (intro allI impI)
    fix pre post
    assume res: "result = pre @ CHR ''{'' # mid @ CHR ''}'' # post"
    show "\<exists>X Y. fst (parseLoop rnd k result) = X @ CHR ''{'' # mid @ CHR ''}'' # Y"
    proof (cases "spintaxRegex_test result")
      case False
      then have "fst (parseLoop rnd k result) = result"
        by (simp add: parseLoop.simps)
      with res show ?thesis
        by blast
    next
      case True
      obtain a k1 where a: "replaceAll rnd k pre = (a, k1)"
        by (cases "replaceAll rnd k pre")
      obtain b k2 where b: "replaceAll rnd k1 post = (b, k2)"
        by (cases "replaceAll rnd k1 post")
      from a b res have r: "replaceAll rnd k result = (a @ CHR ''{'' # mid @ CHR ''}'' # b, k2)"
        by (simp add: replaceAll_around_span [OF assms])
      from "1.IH" [OF True r [symmetric]]
      have "\<exists>X Y. fst (parseLoop rnd k2 (a @ CHR ''{'' # mid @ CHR ''}'' # b)) =
          X @ CHR ''{'' # mid @ CHR ''}'' # Y"
        by blast
      moreover from True r
      have "parseLoop rnd k result = parseLoop rnd k2 (a @ CHR ''{'' # mid @ CHR ''}'' # b)"
        by (subst parseLoop.simps) simp
      ultimately show ?thesis
        by simp
    qed
  qed
qed

text \<open>
  A brace pair around brace-free text and one span without a pipe, such as
  \<open>{Hi|Hello {Name}}\<close>: the opening brace is followed by a run that ends at the
  opening brace of the inner span, so no match starts there; the inner span stays by
  the lemmas above; and the text up to the closing brace holds no opening brace. A
  pass copies the whole pair, whatever stands around it.
\<close>

lemma replaceAll_no_open_prefix:
  "CHR ''{'' \<notin> set v \<Longrightarrow>
   replaceAll rnd k (v @ post) = (case replaceAll rnd k post of (b, k') \<Rightarrow> (v @ b, k'))"
proof (induction v)
  case Nil
  show ?case
    by (simp split: prod.splits)
next
  case (Cons c v)
  then have "c \<noteq> CHR ''{''"
    by auto
  then have "matchAt (c # v @ post) = None"
    by (rule matchAt_not_open)
  with Cons show ?case
    by (simp split: prod.splits)
qed

lemma matchAt_unclosed: "\<forall>x\<in>set u. notBrace x \<Longrightarrow> matchAt (c # u) = None"
proof -
  assume "\<forall>x\<in>set u. notBrace x"
  then have d: "dropWhile notBrace u = []"
    by simp
  show ?thesis
    unfolding matchAt.simps d by simp
qed

lemma replaceAll_unclosed:
  assumes "\<forall>x\<in>set u. notBrace x"
  shows "replaceAll rnd k (CHR ''{'' # u) = (CHR ''{'' # u, k)"
proof -
  from assms have "CHR ''{'' \<notin> set u"
    by (auto simp: notBrace_def)
  then have "\<not> spintaxRegex_test u"
    by (rule no_open_no_match)
  with assms have "\<not> spintaxRegex_test (CHR ''{'' # u)"
    by (simp add: matchAt_unclosed)
  then show ?thesis
    by (rule replaceAll_no_match)
qed

lemma replaceAll_around_pair:
  assumes "CHR ''|'' \<notin> set mid" and "\<forall>x\<in>set u. notBrace x" and "\<forall>x\<in>set v. notBrace x"
  shows "replaceAll rnd k
           (pre @ CHR ''{'' # u @ CHR ''{'' # mid @ CHR ''}'' # v @ CHR ''}'' # post) =
     (case replaceAll rnd k pre of
        (a, k1) \<Rightarrow> (case replaceAll rnd k1 post of
                     (b, k2) \<Rightarrow>
                       (a @ CHR ''{'' # u @ CHR ''{'' # mid @ CHR ''}'' # v @ CHR ''}'' # b,
                        k2)))"
proof -
  from assms(3) have nv: "CHR ''{'' \<notin> set (v @ [CHR ''}''])"
    by (auto simp: notBrace_def)
  have tail: "replaceAll rnd j (v @ CHR ''}'' # post) =
      (case replaceAll rnd j post of (b, k') \<Rightarrow> (v @ CHR ''}'' # b, k'))" for j
    using replaceAll_no_open_prefix [OF nv, of rnd j post] by simp
  have head: "replaceAll rnd k (pre @ CHR ''{'' # u) =
      (case replaceAll rnd k pre of (a, k1) \<Rightarrow> (a @ CHR ''{'' # u, k1))"
  proof (cases u)
    case Nil
    have "replaceAll rnd j [CHR ''{''] = ([CHR ''{''], j)" for j
      using replaceAll_unclosed [of "[]" rnd j] by simp
    with Nil show ?thesis
      using replaceAll_append_open [of rnd k pre "[]"] by (simp split: prod.splits)
  next
    case (Cons c u')
    show ?thesis
      using replaceAll_append_open [of rnd k pre u]
        replaceAll_unclosed [OF assms(2), of rnd]
      by (simp split: prod.splits)
  qed
  have "replaceAll rnd k
           ((pre @ CHR ''{'' # u) @ CHR ''{'' # mid @ CHR ''}'' # (v @ CHR ''}'' # post)) =
     (case replaceAll rnd k (pre @ CHR ''{'' # u) of
        (a, k1) \<Rightarrow> (case replaceAll rnd k1 (v @ CHR ''}'' # post) of
                     (b, k2) \<Rightarrow> (a @ CHR ''{'' # mid @ CHR ''}'' # b, k2)))"
    by (rule replaceAll_around_span [OF assms(1)])
  then show ?thesis
    by (simp add: head tail split: prod.splits)
qed


lemma parseLoop_keeps_inert:
  assumes "\<And>rnd k pre post.
      replaceAll rnd k (pre @ W @ post) =
        (case replaceAll rnd k pre of
           (a, k1) \<Rightarrow> (case replaceAll rnd k1 post of (b, k2) \<Rightarrow> (a @ W @ b, k2)))"
  shows "\<forall>pre post. s = pre @ W @ post \<longrightarrow>
     (\<exists>X Y. fst (parseLoop rnd k s) = X @ W @ Y)"
proof (induction rnd k s rule: parseLoop.induct)
  case (1 rnd k result)
  show ?case
  proof (intro allI impI)
    fix pre post
    assume res: "result = pre @ W @ post"
    show "\<exists>X Y. fst (parseLoop rnd k result) = X @ W @ Y"
    proof (cases "spintaxRegex_test result")
      case False
      then have "fst (parseLoop rnd k result) = result"
        by (simp add: parseLoop.simps)
      with res show ?thesis
        by blast
    next
      case True
      obtain a k1 where a: "replaceAll rnd k pre = (a, k1)"
        by (cases "replaceAll rnd k pre")
      obtain b k2 where b: "replaceAll rnd k1 post = (b, k2)"
        by (cases "replaceAll rnd k1 post")
      from a b res have r: "replaceAll rnd k result = (a @ W @ b, k2)"
        by (simp add: assms)
      from "1.IH" [OF True r [symmetric]]
      have "\<exists>X Y. fst (parseLoop rnd k2 (a @ W @ b)) = X @ W @ Y"
        by blast
      moreover from True r
      have "parseLoop rnd k result = parseLoop rnd k2 (a @ W @ b)"
        by (subst parseLoop.simps) simp
      ultimately show ?thesis
        by simp
    qed
  qed
qed

lemma parseLoop_keeps_pair:
  assumes "CHR ''|'' \<notin> set mid" and "\<forall>x\<in>set u. notBrace x" and "\<forall>x\<in>set v. notBrace x"
  shows "\<exists>X Y. fst (parseLoop rnd k
            (pre @ CHR ''{'' # u @ CHR ''{'' # mid @ CHR ''}'' # v @ CHR ''}'' # post)) =
          X @ CHR ''{'' # u @ CHR ''{'' # mid @ CHR ''}'' # v @ CHR ''}'' # Y"
proof -
  let ?W = "CHR ''{'' # u @ CHR ''{'' # mid @ CHR ''}'' # v @ [CHR ''}'']"
  have "\<forall>pre' post'. pre @ ?W @ post = pre' @ ?W @ post' \<longrightarrow>
     (\<exists>X Y. fst (parseLoop rnd k (pre @ ?W @ post)) = X @ ?W @ Y)"
  proof (rule parseLoop_keeps_inert)
    fix rnd k pre post
    show "replaceAll rnd k (pre @ ?W @ post) =
        (case replaceAll rnd k pre of
           (a, k1) \<Rightarrow> (case replaceAll rnd k1 post of (b, k2) \<Rightarrow> (a @ ?W @ b, k2)))"
      using replaceAll_around_pair [OF assms, of rnd k pre post] by simp
  qed
  then have "\<exists>X Y. fst (parseLoop rnd k (pre @ ?W @ post)) = X @ ?W @ Y"
    by blast
  then show ?thesis
    by simp
qed


subsection \<open>A family of nested spans\<close>

text \<open>\<open>nested n\<close> is \<open>n\<close> spans inside one another: \<open>{a|{a|...{a|a}...}}\<close>. Only the
  innermost span has no brace between its braces, so each pass resolves one level.\<close>

fun nested :: "nat \<Rightarrow> string" where
  "nested 0 = ''a''"
| "nested (Suc n) = ''{a|'' @ nested n @ ''}''"

text \<open>
  Modelled from the claim's words, to compare them with what the regular expression
  of the source matches: "a brace pair whose contents include a pipe" is an opening
  brace, the closing brace that pairs with it, and a pipe somewhere between the two.
  \<open>closing d s\<close> reads \<open>s\<close> up to the closing brace that pairs with an opening brace
  \<open>d\<close> levels up and returns what stands before it.
\<close>

fun closing :: "nat \<Rightarrow> string \<Rightarrow> string option" where
  "closing d [] = None"
| "closing d (c # cs) =
     (if c = CHR ''}'' then
        (case d of 0 \<Rightarrow> Some [] | Suc d' \<Rightarrow> map_option ((#) c) (closing d' cs))
      else if c = CHR ''{'' then map_option ((#) c) (closing (Suc d) cs)
      else map_option ((#) c) (closing d cs))"

fun bracePairWithPipe :: "string \<Rightarrow> bool" where
  "bracePairWithPipe [] = False"
| "bracePairWithPipe (c # cs) =
     ((c = CHR ''{'' \<and>
        (case closing 0 cs of None \<Rightarrow> False | Some contents \<Rightarrow> CHR ''|'' \<in> set contents))
      \<or> bracePairWithPipe cs)"

lemma pickOption_aa: "pickOption rnd k ''a|a'' = ''a''"
  using pickOption_mem [of rnd k "''a|a''"] by simp

lemma replaceAll_nested:
  "CHR ''{'' \<notin> set post \<Longrightarrow>
   replaceAll rnd k (nested (Suc n) @ post) = (nested n @ post, Suc k)"
proof (induction n arbitrary: post)
  case 0
  have "matchAt (CHR ''{'' # ''a|a'' @ CHR ''}'' # post) = Some (''a|a'', post)"
    unfolding matchAt_iff by (simp add: notBrace_def)
  moreover from 0 have "replaceAll rnd (Suc k) post = (post, Suc k)"
    by (simp add: replaceAll_no_match no_open_no_match)
  ultimately show ?case
    by (simp add: pickOption_aa)
next
  case (Suc n)
  let ?Y = "''a|'' @ nested n @ ''}'' @ ''}'' @ post"
  have "matchAt (CHR ''{'' # ''a|'' @ CHR ''{'' # ?Y) = None"
    unfolding matchAt_append_open by (simp add: matchAt.simps notBrace_def)
  moreover from Suc.prems have "CHR ''{'' \<notin> set (CHR ''}'' # post)"
    by simp
  then have "replaceAll rnd k (nested (Suc n) @ CHR ''}'' # post) =
      (nested n @ CHR ''}'' # post, Suc k)"
    by (rule Suc.IH)
  ultimately show ?case
    by (simp add: matchAt_not_open)
qed

lemma passCount_nested: "passCount rnd k (nested n) = n"
proof (induction n arbitrary: k)
  case 0
  show ?case
    by (simp add: passCount.simps matchAt_not_open)
next
  case (Suc n)
  have r: "replaceAll rnd k (nested (Suc n)) = (nested n, Suc k)"
    using replaceAll_nested [of "[]" rnd k n] by simp
  have "spintaxRegex_test (nested (Suc n))"
  proof (rule ccontr)
    assume "\<not> spintaxRegex_test (nested (Suc n))"
    then have "replaceAll rnd k (nested (Suc n)) = (nested (Suc n), k)"
      by (rule replaceAll_no_match)
    with r show False
      by simp
  qed
  with r Suc show ?case
    by (subst passCount.simps) simp
qed


subsection \<open>Claims about the spintax parser\<close>

text \<open>
  C4, as the claim states it, asks for a fixed cap on the number of passes. The loop
  has none: \<open>nested (Suc cap)\<close> takes \<open>Suc cap\<close> passes, whatever \<open>cap\<close> is.
\<close>

theorem parseSpintax_no_fixed_cap:
  "\<not> (\<exists>cap. \<forall>rnd text. passCount rnd 0 text \<le> cap)"
proof
  assume "\<exists>cap. \<forall>rnd text. passCount rnd 0 text \<le> cap"
  then obtain cap where "\<forall>rnd text. passCount rnd 0 text \<le> cap"
    by blast
  then have "passCount (\<lambda>_. 0) 0 (nested (Suc cap)) \<le> cap"
    by blast
  then show False
    unfolding passCount_nested by simp
qed

text \<open>
  C4, amended: spintax resolution is iterative. \<open>parseSpintax\<close> is the result of
  \<open>passCount\<close> passes over the text; before each of these passes the text still holds a
  span \<open>{...|...}\<close> and after the last one it holds none; and the number of passes is at most the number of
  opening braces of the input, so the loop ends on every input although it has no
  cap of its own.
\<close>

theorem parseSpintax_passes_bounded_by_braces:
  "parseSpintax rnd text = fst ((pass rnd ^^ passCount rnd 0 text) (text, 0)) \<and>
   (\<forall>m<passCount rnd 0 text. spintaxRegex_test (fst ((pass rnd ^^ m) (text, 0)))) \<and>
   \<not> spintaxRegex_test (parseSpintax rnd text) \<and>
   passCount rnd 0 text \<le> opens text"
proof (intro conjI)
  show "parseSpintax rnd text = fst ((pass rnd ^^ passCount rnd 0 text) (text, 0))"
  proof (cases "text = []")
    case True
    then show ?thesis
      by (simp add: parseSpintax_def passCount.simps)
  next
    case False
    then show ?thesis
      by (simp add: parseSpintax_def parseLoop_funpow)
  qed
  show "\<forall>m<passCount rnd 0 text. spintaxRegex_test (fst ((pass rnd ^^ m) (text, 0)))"
    by (rule passCount_tests)
  show "\<not> spintaxRegex_test (parseSpintax rnd text)"
    by (simp add: parseSpintax_def parseLoop_no_match)
  show "passCount rnd 0 text \<le> opens text"
    by (rule passCount_le_opens)
qed

theorem parseSpintax_passes_bounded_by_braces_witness:
  "passCount (\<lambda>_. 0) 0 ''{x|{y|z}}'' = 2 \<and>
   parseSpintax (\<lambda>_. 0) ''{x|{y|z}}'' = fst ((pass (\<lambda>_. 0) ^^ 2) (''{x|{y|z}}'', 0)) \<and>
   spintaxRegex_test (fst ((pass (\<lambda>_. 0) ^^ 1) (''{x|{y|z}}'', 0))) \<and>
   \<not> spintaxRegex_test (parseSpintax (\<lambda>_. 0) ''{x|{y|z}}'') \<and>
   2 \<le> opens ''{x|{y|z}}''"
proof -
  have n: "passCount (\<lambda>_. 0) 0 ''{x|{y|z}}'' = 2"
    by code_simp
  have "(1::nat) < 2"
    by simp
  with n show ?thesis
    using parseSpintax_passes_bounded_by_braces [of "\<lambda>_. 0" "''{x|{y|z}}''"]
    by metis
qed

text \<open>
  C5, as the claim states it, says that no brace pair whose contents include a pipe is
  left. The regular expression only matches a pair with no brace inside, so an
  alternative that holds a placeholder keeps the whole span from matching: the text
  comes back as it was, pipe and braces included.
\<close>

theorem parseSpintax_leaves_span_counterexample:
  "parseSpintax (\<lambda>_. 0) ''{Hi|Hello {Name}}'' = ''{Hi|Hello {Name}}'' \<and>
   bracePairWithPipe (parseSpintax (\<lambda>_. 0) ''{Hi|Hello {Name}}'')"
  by code_simp

text \<open>
  C5, amended: for every input text the output of spintax resolution holds no span
  \<open>{...|...}\<close> with no brace between its two braces (what the regular expression
  matches); a text without such a span is returned as it is; every brace-delimited
  span with no pipe in it (such as \<open>{{Name}}\<close>, where \<open>mid\<close> is \<open>{Name}\<close>) stands in
  the output as it stood in the input; and so does every brace pair whose contents
  are brace-free text \<open>l\<close>, one span without a pipe, and brace-free text \<open>r\<close>
  (such as \<open>{Hi|Hello {Name}}\<close>), with or without a pipe in \<open>l\<close> and \<open>r\<close>.
\<close>

theorem parseSpintax_output:
  "\<not> (\<exists>pre a b post.
        parseSpintax rnd text = pre @ CHR ''{'' # a @ CHR ''|'' # b @ CHR ''}'' # post \<and>
        (\<forall>x\<in>set (a @ b). notBrace x)) \<and>
   (\<not> spintaxRegex_test text \<longrightarrow> parseSpintax rnd text = text) \<and>
   (CHR ''|'' \<notin> set mid \<longrightarrow>
      (\<exists>X Y. parseSpintax rnd (before @ CHR ''{'' # mid @ CHR ''}'' # after) =
         X @ CHR ''{'' # mid @ CHR ''}'' # Y)) \<and>
   (CHR ''|'' \<notin> set inner \<and> (\<forall>x\<in>set (l @ r). notBrace x) \<longrightarrow>
      (\<exists>X Y. parseSpintax rnd
          (ahead @ CHR ''{'' # l @ CHR ''{'' # inner @ CHR ''}'' # r @ CHR ''}'' # behind) =
         X @ CHR ''{'' # l @ CHR ''{'' # inner @ CHR ''}'' # r @ CHR ''}'' # Y))"
proof (intro conjI impI)
  have "\<not> spintaxRegex_test (parseSpintax rnd text)"
    by (simp add: parseSpintax_def parseLoop_no_match)
  then show "\<not> (\<exists>pre a b post.
        parseSpintax rnd text = pre @ CHR ''{'' # a @ CHR ''|'' # b @ CHR ''}'' # post \<and>
        (\<forall>x\<in>set (a @ b). notBrace x))"
    unfolding spintaxRegex_test_iff .
next
  assume "\<not> spintaxRegex_test text"
  then show "parseSpintax rnd text = text"
    by (simp add: parseSpintax_def parseLoop.simps)
next
  assume "CHR ''|'' \<notin> set mid"
  then show "\<exists>X Y. parseSpintax rnd (before @ CHR ''{'' # mid @ CHR ''}'' # after) =
         X @ CHR ''{'' # mid @ CHR ''}'' # Y"
    using parseLoop_keeps_span [of mid "before @ CHR ''{'' # mid @ CHR ''}'' # after" rnd 0]
    by (simp add: parseSpintax_def)
next
  assume "CHR ''|'' \<notin> set inner \<and> (\<forall>x\<in>set (l @ r). notBrace x)"
  then have "CHR ''|'' \<notin> set inner" "\<forall>x\<in>set l. notBrace x" "\<forall>x\<in>set r. notBrace x"
    by auto
  then show "\<exists>X Y. parseSpintax rnd
          (ahead @ CHR ''{'' # l @ CHR ''{'' # inner @ CHR ''}'' # r @ CHR ''}'' # behind) =
         X @ CHR ''{'' # l @ CHR ''{'' # inner @ CHR ''}'' # r @ CHR ''}'' # Y"
    using parseLoop_keeps_pair [of inner l r rnd 0 ahead behind]
    by (simp add: parseSpintax_def)
qed

theorem parseSpintax_output_witness:
  "\<not> spintaxRegex_test ''Dear {{Name}}'' \<and>
   parseSpintax (\<lambda>_. 0) ''Dear {{Name}}'' = ''Dear {{Name}}'' \<and>
   CHR ''|'' \<notin> set ''{Name}'' \<and>
   (\<exists>X Y. parseSpintax (\<lambda>_. 0) ''{Hi|Hello} {{Name}}, {a|b}'' = X @ ''{{Name}}'' @ Y) \<and>
   (\<exists>X Y. parseSpintax (\<lambda>_. 0) ''{a|b} {Hi|Hello {Name}}, {c|d}'' =
      X @ ''{Hi|Hello {Name}}'' @ Y)"
proof -
  have t: "\<not> spintaxRegex_test ''Dear {{Name}}''"
    by code_simp
  have p: "CHR ''|'' \<notin> set ''{Name}''"
    by simp
  from t have "parseSpintax (\<lambda>_. 0) ''Dear {{Name}}'' = ''Dear {{Name}}''"
    using parseSpintax_output [of "\<lambda>_. 0" "''Dear {{Name}}''"] by blast
  moreover from p
  have "\<exists>X Y. parseSpintax (\<lambda>_. 0) (''{Hi|Hello} '' @ CHR ''{'' # ''{Name}'' @ CHR ''}'' # '', {a|b}'') =
      X @ CHR ''{'' # ''{Name}'' @ CHR ''}'' # Y"
    using parseSpintax_output [of "\<lambda>_. 0" _ "''{Name}''" "''{Hi|Hello} ''" "'', {a|b}''"]
    by blast
  then have "\<exists>X Y. parseSpintax (\<lambda>_. 0) ''{Hi|Hello} {{Name}}, {a|b}'' = X @ ''{{Name}}'' @ Y"
    by simp
  moreover have "CHR ''|'' \<notin> set ''Name'' \<and> (\<forall>x\<in>set (''Hi|Hello '' @ []). notBrace x)"
    by (simp add: notBrace_def)
  then have "\<exists>X Y. parseSpintax (\<lambda>_. 0)
      (''{a|b} '' @ CHR ''{'' # ''Hi|Hello '' @ CHR ''{'' # ''Name'' @ CHR ''}'' # [] @
       CHR ''}'' # '', {c|d}'') =
      X @ CHR ''{'' # ''Hi|Hello '' @ CHR ''{'' # ''Name'' @ CHR ''}'' # [] @ CHR ''}'' # Y"
    using parseSpintax_output [where rnd = "\<lambda>_. 0" and inner = "''Name''"
        and l = "''Hi|Hello ''" and r = "[]" and ahead = "''{a|b} ''" and behind = "'', {c|d}''"]
    by blast
  then have "\<exists>X Y. parseSpintax (\<lambda>_. 0) ''{a|b} {Hi|Hello {Name}}, {c|d}'' =
      X @ ''{Hi|Hello {Name}}'' @ Y"
    by simp
  ultimately show ?thesis
    using t p by blast
qed


section \<open>The email worker (src/backend/queue.js, lines 198-518, emailWorker)\<close>

subsection \<open>Job data, the Redis store and the outside world\<close>

record sender =
  email :: string
  appPassword :: string
  host :: "string option"
  port :: "string option"

text \<open>
  The fields of \<open>job.data\<close> and \<open>job.id\<close> that the control flow of the worker reads.
  \<open>jobIndex\<close> is \<open>parseInt(job.id) || 0\<close>: the queue numbers its jobs with a counter,
  so the value is a natural number. \<open>recipientEmail\<close> is \<open>recipient.Email\<close>, absent
  when the row has none. \<open>deliveryMethod\<close> is \<open>None\<close> when the field is undefined.
\<close>

record job =
  jobIndex :: nat
  recipientEmail :: "string option"
  senderPool :: "sender list"
  deliveryMethod :: "string option"

text \<open>
  Redis, as far as the worker's string keys go: a key holds a value and the time to
  live it was stored with. The clock does not move during a job, so nothing expires
  inside the model.
\<close>

type_synonym redis = "string \<rightharpoonup> string \<times> nat"

definition redis_get :: "redis \<Rightarrow> string \<Rightarrow> string option" where
  "redis_get r k = map_option fst (r k)"

definition setex :: "redis \<Rightarrow> string \<Rightarrow> nat \<Rightarrow> string \<Rightarrow> redis" where
  "setex r k ttl v = r(k \<mapsto> (v, ttl))"

text \<open>\<open>if (isPaused)\<close> on the reply of \<open>connection.get\<close>: \<open>null\<close> and the empty string
  are falsy, every other string is truthy.\<close>

definition truthy :: "string option \<Rightarrow> bool" where
  "truthy v = (case v of None \<Rightarrow> False | Some s \<Rightarrow> s \<noteq> [])"

definition pausedKey :: "string \<Rightarrow> string" where
  "pausedKey e = ''paused_sender:'' @ e"

definition invoiceKey :: "string \<Rightarrow> string" where
  "invoiceKey n = ''invoice_pdf:'' @ n"

definition isPaused :: "redis \<Rightarrow> string \<Rightarrow> bool" where
  "isPaused r e = truthy (redis_get r (pausedKey e))"

record attachment =
  filename :: string
  content :: string
  contentType :: string

text \<open>What \<open>mailOptions\<close> says about the route and the payload of a message; the
  subject and the HTML are built by string functions that decide nothing below.\<close>

record mailOptions =
  mail_from :: string
  mail_to :: "string option"
  attachments :: "attachment list"

text \<open>
  The services the worker calls, as oracles indexed by the loop counter of the
  attempt: the PDF renderer (\<open>Inl\<close> the message of the crash, \<open>Inr\<close> the bytes),
  \<open>transporter.sendMail\<close> (\<open>None\<close> when the mail was accepted, \<open>Some\<close> the
  \<open>err.message\<close> of the rejection, the empty string when it has none),
  \<open>Buffer.toString('base64')\<close> and the invoice number drawn by
  \<open>generateInvoiceId\<close>.
\<close>

record env =
  renderPdf :: "nat \<Rightarrow> string + string"
  sendMail :: "nat \<Rightarrow> mailOptions \<Rightarrow> string option"
  base64 :: "string \<Rightarrow> string"
  invoiceNumber :: string

text \<open>
  The errors a job can end with: \<open>NoSenderPool\<close> is the error with the message
  \<open>No sender pool provided in job data.\<close>, \<open>PdfError m\<close> the one with
  \<open>Puppeteer engine failed to build PDF. Root cause: m\<close>, \<open>TransportError m\<close> the
  error object that \<open>sendMail\<close> threw, with its message \<open>m\<close>, and
  \<open>AllSendersPaused\<close> the error with the message \<open>All SMTP sender accounts are
  paused due to rate limits or invalid credentials.\<close>
\<close>

datatype error =
    NoSenderPool
  | TypeError
  | PdfError string
  | TransportError string
  | AllSendersPaused

text \<open>
  The variables of the worker that live across the iterations of the loop, the store,
  and \<open>sent\<close>: the messages handed to \<open>sendMail\<close> so far, in order.
\<close>

record wstate =
  store :: redis
  success :: bool
  lastError :: "error option"
  selectedSender :: "sender option"
  sent :: "mailOptions list"

subsection \<open>Classifying a transport error\<close>

fun startsWith :: "string \<Rightarrow> string \<Rightarrow> bool" where
  "startsWith s [] = True"
| "startsWith [] (p # ps) = False"
| "startsWith (c # s) (p # ps) = (c = p \<and> startsWith s ps)"

text \<open>\<open>msg.includes(pattern)\<close>: the pattern stands somewhere in the message.\<close>

fun str_includes :: "string \<Rightarrow> string \<Rightarrow> bool" where
  "str_includes [] p = (p = [])"
| "str_includes (c # s) p = (startsWith (c # s) p \<or> str_includes s p)"

definition isRateLimit :: "string \<Rightarrow> bool" where
  "isRateLimit msg \<longleftrightarrow>
     str_includes msg ''Rate Limit'' \<or> str_includes msg ''421'' \<or>
     str_includes msg ''450'' \<or> str_includes msg ''452'' \<or>
     str_includes msg ''550 5.4.5'' \<or> str_includes msg ''quota'' \<or>
     str_includes msg ''BadCredentials''"

subsection \<open>The rotation loop\<close>

definition deliveryMethodOf :: "job \<Rightarrow> string" where
  "deliveryMethodOf j = (case deliveryMethod j of None \<Rightarrow> ''attachment'' | Some m \<Rightarrow> m)"

definition senderIndex :: "nat \<Rightarrow> nat \<Rightarrow> nat \<Rightarrow> nat" where
  "senderIndex startIndex i n = (startIndex + i) mod n"

definition candidateSender :: "job \<Rightarrow> nat \<Rightarrow> sender" where
  "candidateSender j i = senderPool j ! senderIndex (jobIndex j) i (length (senderPool j))"

text \<open>How one iteration of the \<open>for\<close> loop ends: \<open>continue\<close>, \<open>break\<close> or a \<open>throw\<close>
  that leaves the loop. The state is kept in each case: what was written to Redis and
  what was handed to the transport stays so.\<close>

datatype step = Continue wstate | Break wstate | Throw error wstate

text \<open>The \<open>try { await transporter.sendMail(mailOptions) ... } catch (err) { ... }\<close>
  block at the end of the loop body.\<close>

definition trySend :: "env \<Rightarrow> nat \<Rightarrow> sender \<Rightarrow> mailOptions \<Rightarrow> wstate \<Rightarrow> step" where
  "trySend e i selected mail st =
     (let st1 = st\<lparr>sent := sent st @ [mail]\<rparr>
      in case sendMail e i mail of
           None \<Rightarrow> Break (st1\<lparr>success := True\<rparr>)
         | Some msg \<Rightarrow>
             (let st2 = st1\<lparr>lastError := Some (TransportError msg)\<rparr>
              in if isRateLimit msg
                 then Continue (st2\<lparr>store :=
                        setex (store st2) (pausedKey (email selected)) 3600 ''true''\<rparr>)
                 else Throw (TransportError msg) st2))"

text \<open>The body of the loop for counter \<open>i\<close>.\<close>

definition attempt :: "env \<Rightarrow> job \<Rightarrow> nat \<Rightarrow> wstate \<Rightarrow> step" where
  "attempt e j i st =
     (let candidate = candidateSender j i
      in if isPaused (store st) (email candidate) then Continue st
         else
           (let st1 = st\<lparr>selectedSender := Some candidate\<rparr>
            in case renderPdf e i of
                 Inl msg \<Rightarrow> Throw (PdfError msg) st1
               | Inr pdfBuffer \<Rightarrow>
                   (let mail = \<lparr>mail_from = email candidate, mail_to = recipientEmail j,
                                 attachments = []\<rparr>
                    in if deliveryMethodOf j = ''attachment''
                       then trySend e i candidate
                              (mail\<lparr>attachments :=
                                 [\<lparr>filename = ''Invoice_'' @ invoiceNumber e @ ''.pdf'',
                                   content = pdfBuffer,
                                   contentType = ''application/pdf''\<rparr>]\<rparr>)
                              st1
                       else trySend e i candidate mail
                              (st1\<lparr>store :=
                                 setex (store st1) (invoiceKey (invoiceNumber e)) (86400 * 30)
                                   (base64 e pdfBuffer)\<rparr>))))"

datatype loop_result = Finished wstate | Thrown error wstate

function rotationLoop :: "env \<Rightarrow> job \<Rightarrow> nat \<Rightarrow> wstate \<Rightarrow> loop_result" where
  "rotationLoop e j i st =
     (if i < length (senderPool j) then
        (case attempt e j i st of
           Continue st' \<Rightarrow> rotationLoop e j (Suc i) st'
         | Break st' \<Rightarrow> Finished st'
         | Throw err st' \<Rightarrow> Thrown err st')
      else Finished st)"
  by pat_completeness auto

termination rotationLoop
  by (relation "measure (\<lambda>(e, j, i, st). length (senderPool j) - i)") auto

declare rotationLoop.simps [simp del]

definition initial :: "redis \<Rightarrow> wstate" where
  "initial r = \<lparr>store = r, success = False, lastError = None, selectedSender = None, sent = []\<rparr>"

datatype job_result = Completed string string | Failed error

text \<open>
  The processor of one job, from the Redis store it finds to its return value or the
  error it throws, with the state it leaves. The \<open>catch\<close> around the whole body logs
  and throws the error again. \<open>recipient.Email.split\<close> is a \<open>TypeError\<close> when the
  row has no \<open>Email\<close>, and so is \<open>selectedSender.email\<close> without a selected sender.
  Two things the worker does are left out, since nothing below reads them: the
  telemetry lines (\<open>emitLiveLog\<close> writes to the list \<open>live_dispatch_logs\<close> only, see
  the last section) and the delay before a successful job returns.
\<close>

definition emailWorker :: "env \<Rightarrow> job \<Rightarrow> redis \<Rightarrow> job_result \<times> wstate" where
  "emailWorker e j r =
     (if senderPool j = [] then (Failed NoSenderPool, initial r)
      else if recipientEmail j = None then (Failed TypeError, initial r)
      else
        (case rotationLoop e j 0 (initial r) of
           Thrown err st \<Rightarrow> (Failed err, st)
         | Finished st \<Rightarrow>
             if \<not> success st then
               (case lastError st of
                  Some err \<Rightarrow> (Failed err, st)
                | None \<Rightarrow> (Failed AllSendersPaused, st))
             else
               (case selectedSender st of
                  None \<Rightarrow> (Failed TypeError, st)
                | Some s \<Rightarrow> (Completed (invoiceNumber e) (email s), st))))"



subsection \<open>Facts about the store and the loop body\<close>

lemma pausedKey_inj [simp]: "pausedKey a = pausedKey b \<longleftrightarrow> a = b"
  by (simp add: pausedKey_def)

lemma pausedKey_not_invoiceKey [simp]:
  "pausedKey a \<noteq> invoiceKey b" "invoiceKey b \<noteq> pausedKey a"
  by (simp_all add: pausedKey_def invoiceKey_def)

lemma isPaused_setex_paused:
  "isPaused (setex r (pausedKey a) t ''true'') b \<longleftrightarrow> b = a \<or> isPaused r b"
  by (simp add: isPaused_def setex_def redis_get_def truthy_def)

lemma isPaused_setex_invoice: "isPaused (setex r (invoiceKey n) t v) b = isPaused r b"
  by (simp add: isPaused_def setex_def redis_get_def)

lemma setex_same: "setex r k t v k = Some (v, t)"
  by (simp add: setex_def)


text \<open>The message of attempt \<open>i\<close> and the store it is sent from, read off the loop
  body: \<open>attempt_send\<close> below shows that these are the ones the body uses.\<close>

definition mailOf :: "env \<Rightarrow> job \<Rightarrow> nat \<Rightarrow> string \<Rightarrow> mailOptions" where
  "mailOf e j i pdf =
     \<lparr>mail_from = email (candidateSender j i), mail_to = recipientEmail j,
       attachments =
         (if deliveryMethodOf j = ''attachment''
          then [\<lparr>filename = ''Invoice_'' @ invoiceNumber e @ ''.pdf'', content = pdf,
                  contentType = ''application/pdf''\<rparr>]
          else [])\<rparr>"

definition storeBeforeSend :: "env \<Rightarrow> job \<Rightarrow> string \<Rightarrow> redis \<Rightarrow> redis" where
  "storeBeforeSend e j pdf r =
     (if deliveryMethodOf j = ''attachment'' then r
      else setex r (invoiceKey (invoiceNumber e)) 2592000 (base64 e pdf))"

lemma attempt_paused:
  "isPaused (store st) (email (candidateSender j i)) \<Longrightarrow> attempt e j i st = Continue st"
  by (simp add: attempt_def)

lemma attempt_pdf_error:
  "\<not> isPaused (store st) (email (candidateSender j i)) \<Longrightarrow> renderPdf e i = Inl msg \<Longrightarrow>
   attempt e j i st = Throw (PdfError msg) (st\<lparr>selectedSender := Some (candidateSender j i)\<rparr>)"
  by (simp add: attempt_def)

lemma attempt_send:
  "\<not> isPaused (store st) (email (candidateSender j i)) \<Longrightarrow> renderPdf e i = Inr pdf \<Longrightarrow>
   attempt e j i st =
     trySend e i (candidateSender j i) (mailOf e j i pdf)
       (st\<lparr>selectedSender := Some (candidateSender j i),
           store := storeBeforeSend e j pdf (store st)\<rparr>)"
  by (simp add: attempt_def Let_def mailOf_def storeBeforeSend_def)

lemma trySend_ok:
  "sendMail e i m = None \<Longrightarrow>
   trySend e i c m st = Break (st\<lparr>sent := sent st @ [m], success := True\<rparr>)"
  by (simp add: trySend_def)

lemma trySend_rate_limit:
  "sendMail e i m = Some msg \<Longrightarrow> isRateLimit msg \<Longrightarrow>
   trySend e i c m st =
     Continue (st\<lparr>sent := sent st @ [m], lastError := Some (TransportError msg),
                 store := setex (store st) (pausedKey (email c)) 3600 ''true''\<rparr>)"
  by (simp add: trySend_def)

lemma trySend_fatal:
  "sendMail e i m = Some msg \<Longrightarrow> \<not> isRateLimit msg \<Longrightarrow>
   trySend e i c m st =
     Throw (TransportError msg)
       (st\<lparr>sent := sent st @ [m], lastError := Some (TransportError msg)\<rparr>)"
  by (simp add: trySend_def)

fun stepState :: "step \<Rightarrow> wstate" where
  "stepState (Continue st) = st"
| "stepState (Break st) = st"
| "stepState (Throw err st) = st"

fun stateOf :: "loop_result \<Rightarrow> wstate" where
  "stateOf (Finished st) = st"
| "stateOf (Thrown err st) = st"

text \<open>The five ways through the loop body.\<close>

lemma attempt_cases [case_names skip pdf_error accepted rate_limit fatal]:
  fixes e j i st
  defines "c \<equiv> candidateSender j i"
  obtains
    (skip) "isPaused (store st) (email c)" "attempt e j i st = Continue st"
  | (pdf_error) msg where "\<not> isPaused (store st) (email c)" "renderPdf e i = Inl msg"
      "attempt e j i st = Throw (PdfError msg) (st\<lparr>selectedSender := Some c\<rparr>)"
  | (accepted) pdf where "\<not> isPaused (store st) (email c)" "renderPdf e i = Inr pdf"
      "sendMail e i (mailOf e j i pdf) = None"
      "attempt e j i st =
         Break (st\<lparr>selectedSender := Some c, store := storeBeforeSend e j pdf (store st),
                   sent := sent st @ [mailOf e j i pdf], success := True\<rparr>)"
  | (rate_limit) pdf msg where "\<not> isPaused (store st) (email c)" "renderPdf e i = Inr pdf"
      "sendMail e i (mailOf e j i pdf) = Some msg" "isRateLimit msg"
      "attempt e j i st =
         Continue (st\<lparr>selectedSender := Some c,
                      store := setex (storeBeforeSend e j pdf (store st))
                                 (pausedKey (email c)) 3600 ''true'',
                      sent := sent st @ [mailOf e j i pdf],
                      lastError := Some (TransportError msg)\<rparr>)"
  | (fatal) pdf msg where "\<not> isPaused (store st) (email c)" "renderPdf e i = Inr pdf"
      "sendMail e i (mailOf e j i pdf) = Some msg" "\<not> isRateLimit msg"
      "attempt e j i st =
         Throw (TransportError msg)
           (st\<lparr>selectedSender := Some c, store := storeBeforeSend e j pdf (store st),
                sent := sent st @ [mailOf e j i pdf],
                lastError := Some (TransportError msg)\<rparr>)"
proof (cases "isPaused (store st) (email c)")
  case True
  then show ?thesis
    using skip attempt_paused unfolding c_def by blast
next
  case np: False
  show ?thesis
  proof (cases "renderPdf e i")
    case (Inl msg)
    with np show ?thesis
      using pdf_error attempt_pdf_error unfolding c_def by blast
  next
    case (Inr pdf)
    note a = attempt_send [OF np [unfolded c_def] Inr, folded c_def]
    show ?thesis
    proof (cases "sendMail e i (mailOf e j i pdf)")
      case None
      with np Inr a show ?thesis
        by (intro accepted [of pdf]) (simp_all add: trySend_ok)
    next
      case (Some msg)
      show ?thesis
      proof (cases "isRateLimit msg")
        case True
        with np Inr Some a show ?thesis
          by (intro rate_limit [of pdf msg]) (simp_all add: trySend_rate_limit)
      next
        case False
        with np Inr Some a show ?thesis
          by (intro fatal [of pdf msg]) (simp_all add: trySend_fatal)
      qed
    qed
  qed
qed

lemma rotationLoop_unfold:
  "i < length (senderPool j) \<Longrightarrow>
   rotationLoop e j i st =
     (case attempt e j i st of
        Continue st' \<Rightarrow> rotationLoop e j (Suc i) st'
      | Break st' \<Rightarrow> Finished st'
      | Throw err st' \<Rightarrow> Thrown err st')"
  by (subst rotationLoop.simps) simp

lemma rotationLoop_done: "\<not> i < length (senderPool j) \<Longrightarrow> rotationLoop e j i st = Finished st"
  by (subst rotationLoop.simps) simp

lemma rotationLoop_invariant:
  assumes "\<And>i st. i < length (senderPool j) \<Longrightarrow> P st \<Longrightarrow> P (stepState (attempt e j i st))"
    and "P st"
  shows "P (stateOf (rotationLoop e j i st))"
  using assms
proof (induction e j i st rule: rotationLoop.induct)
  case (1 e j i st)
  show ?case
  proof (cases "i < length (senderPool j)")
    case False
    with "1.prems"(2) show ?thesis
      by (simp add: rotationLoop_done)
  next
    case True
    from "1.prems" True have P': "P (stepState (attempt e j i st))"
      by blast
    show ?thesis
    proof (cases "attempt e j i st")
      case (Continue st')
      with P' have "P st'"
        by simp
      with "1.IH" [OF True Continue] "1.prems"(1)
      have "P (stateOf (rotationLoop e j (Suc i) st'))"
        by blast
      with True Continue show ?thesis
        by (simp add: rotationLoop_unfold)
    next
      case (Break st')
      with P' True show ?thesis
        by (simp add: rotationLoop_unfold)
    next
      case (Throw err st')
      with P' True show ?thesis
        by (simp add: rotationLoop_unfold)
    qed
  qed
qed

text \<open>Pause flags only accumulate, and whoever is given a message or selected was not
  paused when the loop started.\<close>

definition unpausedUse :: "wstate \<Rightarrow> wstate \<Rightarrow> bool" where
  "unpausedUse st0 st \<longleftrightarrow>
     (\<forall>x. isPaused (store st0) x \<longrightarrow> isPaused (store st) x) \<and>
     (\<forall>m\<in>set (sent st). m \<in> set (sent st0) \<or> \<not> isPaused (store st0) (mail_from m)) \<and>
     (selectedSender st = selectedSender st0 \<or>
      (\<exists>s. selectedSender st = Some s \<and> \<not> isPaused (store st0) (email s)))"

lemma isPaused_storeBeforeSend: "isPaused (storeBeforeSend e j pdf r) x = isPaused r x"
  by (simp add: storeBeforeSend_def isPaused_setex_invoice)

lemma mail_from_mailOf: "mail_from (mailOf e j i pdf) = email (candidateSender j i)"
  by (simp add: mailOf_def)

lemma unpausedUse_step:
  assumes "unpausedUse st0 st"
  shows "unpausedUse st0 (stepState (attempt e j i st))"
proof -
  from assms have mono: "\<And>x. isPaused (store st0) x \<Longrightarrow> isPaused (store st) x"
    by (simp add: unpausedUse_def)
  show ?thesis
  proof (cases e j i st rule: attempt_cases)
    case skip
    with assms show ?thesis by simp
  next
    case (pdf_error msg)
    with assms mono show ?thesis
      by (auto simp: unpausedUse_def)
  next
    case (accepted pdf)
    with assms mono show ?thesis
      by (auto simp: unpausedUse_def isPaused_storeBeforeSend mail_from_mailOf)
  next
    case (rate_limit pdf msg)
    with assms mono show ?thesis
      by (auto simp: unpausedUse_def isPaused_storeBeforeSend mail_from_mailOf
          isPaused_setex_paused)
  next
    case (fatal pdf msg)
    with assms mono show ?thesis
      by (auto simp: unpausedUse_def isPaused_storeBeforeSend mail_from_mailOf)
  qed
qed

lemma unpausedUse_loop: "unpausedUse st (stateOf (rotationLoop e j i st))"
proof (rule rotationLoop_invariant)
  show "unpausedUse st st"
    by (simp add: unpausedUse_def)
qed (rule unpausedUse_step)


text \<open>What the processor leaves is the state the loop ended in, or the initial one
  when the loop was never entered.\<close>

lemma emailWorker_state:
  "snd (emailWorker e j r) = initial r \<or>
   snd (emailWorker e j r) = stateOf (rotationLoop e j 0 (initial r))"
  by (auto simp: emailWorker_def split: loop_result.splits option.splits)

lemma emailWorker_Completed:
  "fst (emailWorker e j r) = Completed n x \<Longrightarrow>
   \<exists>s. selectedSender (stateOf (rotationLoop e j 0 (initial r))) = Some s \<and> email s = x"
  by (auto simp: emailWorker_def split: loop_result.splits option.splits if_splits)

text \<open>The states in which the loop of a job stands before an iteration.\<close>

inductive reaches :: "env \<Rightarrow> job \<Rightarrow> redis \<Rightarrow> nat \<Rightarrow> wstate \<Rightarrow> bool"
  for e :: env and j :: job and r :: redis where
    start: "reaches e j r 0 (initial r)"
  | continue: "reaches e j r i st \<Longrightarrow> i < length (senderPool j) \<Longrightarrow>
       attempt e j i st = Continue st' \<Longrightarrow> reaches e j r (Suc i) st'"

code_pred reaches .

lemma reaches_loop:
  "reaches e j r i st \<Longrightarrow> rotationLoop e j 0 (initial r) = rotationLoop e j i st"
proof (induction rule: reaches.induct)
  case start
  show ?case by simp
next
  case (continue i st st')
  then show ?case
    by (simp add: rotationLoop_unfold)
qed

text \<open>
  C1: a candidate whose pause flag is set when the loop examines it is skipped: the
  iteration ends in \<open>continue\<close> with nothing changed (no message is handed to the
  transport, \<open>selectedSender\<close> stays as it was) and the loop goes on with the next
  counter, that is with the next candidate in rotation order. For a whole job: a
  sender whose flag is set in the store the job starts from is given no message by
  that job, is not the sender the job reports, and is still paused afterwards.
\<close>

theorem paused_sender_is_skipped:
  "(i < length (senderPool j) \<and> isPaused (store st) (email (candidateSender j i)) \<longrightarrow>
      attempt e j i st = Continue st \<and>
      rotationLoop e j i st = rotationLoop e j (Suc i) st) \<and>
   (isPaused r x \<longrightarrow>
      (\<forall>m\<in>set (sent (snd (emailWorker e j r))). mail_from m \<noteq> x) \<and>
      (\<forall>n. fst (emailWorker e j r) \<noteq> Completed n x) \<and>
      isPaused (store (snd (emailWorker e j r))) x)"
proof (intro conjI impI)
  assume a: "i < length (senderPool j) \<and> isPaused (store st) (email (candidateSender j i))"
  then show "attempt e j i st = Continue st"
    by (simp add: attempt_paused)
  with a show "rotationLoop e j i st = rotationLoop e j (Suc i) st"
    by (simp add: rotationLoop_unfold)
next
  assume x: "isPaused r x"
  let ?st = "stateOf (rotationLoop e j 0 (initial r))"
  have u: "unpausedUse (initial r) ?st"
    by (rule unpausedUse_loop)
  have u0: "unpausedUse (initial r) (initial r)"
    by (simp add: unpausedUse_def)
  from emailWorker_state [of e j r] u u0
  have us: "unpausedUse (initial r) (snd (emailWorker e j r))"
    by auto
  from us x show "\<forall>m\<in>set (sent (snd (emailWorker e j r))). mail_from m \<noteq> x"
    by (auto simp: unpausedUse_def initial_def)
  from us x show "isPaused (store (snd (emailWorker e j r))) x"
    by (simp add: unpausedUse_def initial_def)
  show "\<forall>n. fst (emailWorker e j r) \<noteq> Completed n x"
  proof (intro allI notI)
    fix n
    assume "fst (emailWorker e j r) = Completed n x"
    then obtain s where "selectedSender ?st = Some s" "email s = x"
      using emailWorker_Completed by blast
    with u x show False
      by (auto simp: unpausedUse_def initial_def)
  qed
qed

text \<open>
  C2: a send attempt of a job fails with the transport error text \<open>msg\<close>. When the
  text holds one of the rate-limit, greylist, quota or bad-credential keywords, the
  pause flag of the selected sender is stored with a time to live of 3600 seconds and
  the same loop goes on with the next counter. Otherwise the job fails at once with
  that error as its reason, and the message of this attempt is the last one handed
  to the transport.
\<close>

theorem transport_error_classification:
  assumes "senderPool j \<noteq> []" and "recipientEmail j \<noteq> None"
    and "reaches e j r i st" and "i < length (senderPool j)"
    and "\<not> isPaused (store st) (email (candidateSender j i))"
    and "renderPdf e i = Inr pdf"
    and "sendMail e i (mailOf e j i pdf) = Some msg"
  shows "if isRateLimit msg
         then \<exists>st'. attempt e j i st = Continue st' \<and> reaches e j r (Suc i) st' \<and>
                store st' (pausedKey (email (candidateSender j i))) = Some (''true'', 3600) \<and>
                isPaused (store st') (email (candidateSender j i)) \<and>
                sent st' = sent st @ [mailOf e j i pdf] \<and>
                rotationLoop e j 0 (initial r) = rotationLoop e j (Suc i) st'
         else \<exists>st'. emailWorker e j r = (Failed (TransportError msg), st') \<and>
                sent st' = sent st @ [mailOf e j i pdf]"
proof (cases e j i st rule: attempt_cases)
  case skip
  with assms(5) show ?thesis by simp
next
  case (pdf_error msg')
  with assms(6) show ?thesis by simp
next
  case (accepted pdf')
  with assms(6,7) show ?thesis by simp
next
  case (rate_limit pdf' msg')
  with assms(6,7) have eq: "pdf' = pdf" "msg' = msg"
    by simp_all
  let ?st' = "st\<lparr>selectedSender := Some (candidateSender j i),
      store := setex (storeBeforeSend e j pdf (store st))
                 (pausedKey (email (candidateSender j i))) 3600 ''true'',
      sent := sent st @ [mailOf e j i pdf],
      lastError := Some (TransportError msg)\<rparr>"
  from rate_limit eq have a: "attempt e j i st = Continue ?st'"
    by simp
  with assms(3,4) have re: "reaches e j r (Suc i) ?st'"
    by (rule reaches.continue)
  then have "rotationLoop e j 0 (initial r) = rotationLoop e j (Suc i) ?st'"
    by (rule reaches_loop)
  with a re rate_limit(4) eq show ?thesis
    by (auto simp: setex_same isPaused_setex_paused)
next
  case (fatal pdf' msg')
  with assms(6,7) have eq: "pdf' = pdf" "msg' = msg"
    by simp_all
  let ?st' = "st\<lparr>selectedSender := Some (candidateSender j i),
      store := storeBeforeSend e j pdf (store st),
      sent := sent st @ [mailOf e j i pdf],
      lastError := Some (TransportError msg)\<rparr>"
  from fatal eq assms(4) have "rotationLoop e j i st = Thrown (TransportError msg) ?st'"
    by (simp add: rotationLoop_unfold)
  with reaches_loop [OF assms(3)]
  have "rotationLoop e j 0 (initial r) = Thrown (TransportError msg) ?st'"
    by simp
  with assms(1,2) have "emailWorker e j r = (Failed (TransportError msg), ?st')"
    by (simp add: emailWorker_def)
  with fatal(4) eq show ?thesis
    by auto
qed


subsection \<open>A loop that runs through the whole pool\<close>

lemma senderIndex_surj: "p < n \<Longrightarrow> \<exists>k<n. senderIndex s k n = p"
proof -
  assume p: "p < n"
  define q r where "q = s div n" and "r = s mod n"
  then have s: "s = q * n + r" and r: "r < n"
    using p by simp_all
  let ?k = "(p + (n - r)) mod n"
  have k: "?k < n"
    using p by simp
  from r have "q * n + r + (p + (n - r)) = p + (q + 1) * n"
    by (simp add: algebra_simps)
  then have "(q * n + r + (p + (n - r))) mod n = p"
    using p by simp
  then have "senderIndex s ?k n = p"
    unfolding senderIndex_def s by (simp add: mod_add_right_eq)
  with k show ?thesis
    by blast
qed

lemma every_sender_is_candidate:
  "c \<in> set (senderPool j) \<Longrightarrow> \<exists>k<length (senderPool j). candidateSender j k = c"
proof -
  assume "c \<in> set (senderPool j)"
  then obtain p where p: "p < length (senderPool j)" "senderPool j ! p = c"
    by (auto simp: in_set_conv_nth)
  from senderIndex_surj [OF p(1), of "jobIndex j"]
  obtain k where "k < length (senderPool j)"
    "senderIndex (jobIndex j) k (length (senderPool j)) = p"
    by blast
  with p(2) show ?thesis
    by (auto simp: candidateSender_def)
qed

text \<open>
  What holds before iteration \<open>i\<close> of a job started from the store \<open>r\<close> as long as
  no send has succeeded: the candidates examined so far are all paused, and either
  nothing was sent and the store is untouched, or the last error is the
  rate-limit-shaped answer to the last message.
\<close>

definition exhausting :: "env \<Rightarrow> job \<Rightarrow> redis \<Rightarrow> nat \<Rightarrow> wstate \<Rightarrow> bool" where
  "exhausting e j r i st \<longleftrightarrow>
     \<not> success st \<and>
     (\<forall>k<i. isPaused (store st) (email (candidateSender j k))) \<and>
     (if sent st = [] then lastError st = None \<and> store st = r
      else \<exists>msg i'. lastError st = Some (TransportError msg) \<and> isRateLimit msg \<and>
             sendMail e i' (last (sent st)) = Some msg)"

lemma exhausting_step:
  assumes "exhausting e j r i st" and "attempt e j i st = Continue st'"
  shows "exhausting e j r (Suc i) st'"
proof (cases e j i st rule: attempt_cases)
  case skip
  with assms show ?thesis
    by (auto simp: exhausting_def less_Suc_eq)
next
  case (pdf_error msg)
  with assms(2) show ?thesis by simp
next
  case (accepted pdf)
  with assms(2) show ?thesis by simp
next
  case (rate_limit pdf msg)
  with assms(2) have st': "st' = st\<lparr>selectedSender := Some (candidateSender j i),
      store := setex (storeBeforeSend e j pdf (store st))
                 (pausedKey (email (candidateSender j i))) 3600 ''true'',
      sent := sent st @ [mailOf e j i pdf],
      lastError := Some (TransportError msg)\<rparr>"
    by simp
  from assms(1) have "\<not> success st"
    and "\<forall>k<i. isPaused (store st) (email (candidateSender j k))"
    by (simp_all add: exhausting_def)
  with rate_limit(3,4) show ?thesis
    unfolding st' exhausting_def
    by (auto simp: isPaused_setex_paused isPaused_storeBeforeSend less_Suc_eq)
next
  case (fatal pdf msg)
  with assms(2) show ?thesis by simp
qed

lemma attempt_Break_success: "attempt e j i st = Break st' \<Longrightarrow> success st'"
  by (cases e j i st rule: attempt_cases) auto

lemma exhausting_loop:
  assumes "rotationLoop e j i st = Finished st'" and "\<not> success st'"
    and "exhausting e j r i st"
  shows "exhausting e j r (max i (length (senderPool j))) st'"
  using assms
proof (induction e j i st rule: rotationLoop.induct)
  case (1 e j i st)
  show ?case
  proof (cases "i < length (senderPool j)")
    case False
    with "1.prems" show ?thesis
      by (simp add: rotationLoop_done max_def)
  next
    case True
    show ?thesis
    proof (cases "attempt e j i st")
      case (Continue st1)
      with True "1.prems"(1) have "rotationLoop e j (Suc i) st1 = Finished st'"
        by (simp add: rotationLoop_unfold)
      moreover from "1.prems"(3) Continue have "exhausting e j r (Suc i) st1"
        by (rule exhausting_step)
      ultimately have "exhausting e j r (max (Suc i) (length (senderPool j))) st'"
        using "1.IH" [OF True Continue] "1.prems"(2) by blast
      with True show ?thesis
        by (simp add: max_def)
    next
      case (Break st1)
      with True "1.prems"(1) have "st' = st1"
        by (simp add: rotationLoop_unfold)
      with Break "1.prems"(2) show ?thesis
        using attempt_Break_success by blast
    next
      case (Throw err st1)
      with True "1.prems"(1) show ?thesis
        by (simp add: rotationLoop_unfold)
    qed
  qed
qed

text \<open>
  C3, amended: when the rotation loop of a job runs through the whole pool without a
  successful send, the job fails and the pause flag of every sender of the pool is
  set. The reason is the distinct "all senders paused" error only when nothing was
  sent, every candidate having been paused from the start (the store is then as the
  job found it); when a send was attempted, as with a pool of one sender that
  answers with a rate-limit-shaped error, the reason is the last transport error
  itself, which is rate-limit-shaped.
\<close>

theorem loop_without_success:
  assumes "senderPool j \<noteq> []" and "recipientEmail j \<noteq> None"
    and "rotationLoop e j 0 (initial r) = Finished st" and "\<not> success st"
  shows "(\<forall>c\<in>set (senderPool j). isPaused (store st) (email c)) \<and>
         (if sent st = []
          then emailWorker e j r = (Failed AllSendersPaused, st) \<and> store st = r
          else \<exists>msg i. isRateLimit msg \<and> sendMail e i (last (sent st)) = Some msg \<and>
                 emailWorker e j r = (Failed (TransportError msg), st))"
proof -
  have "exhausting e j r 0 (initial r)"
    by (simp add: exhausting_def initial_def)
  with assms(3,4) have ex: "exhausting e j r (max 0 (length (senderPool j))) st"
    by (rule exhausting_loop)
  then have all: "\<forall>k<length (senderPool j). isPaused (store st) (email (candidateSender j k))"
    by (simp add: exhausting_def)
  have "\<forall>c\<in>set (senderPool j). isPaused (store st) (email c)"
  proof
    fix c
    assume "c \<in> set (senderPool j)"
    then obtain k where "k < length (senderPool j)" "candidateSender j k = c"
      using every_sender_is_candidate by blast
    with all show "isPaused (store st) (email c)"
      by blast
  qed
  moreover have "if sent st = []
          then emailWorker e j r = (Failed AllSendersPaused, st) \<and> store st = r
          else \<exists>msg i. isRateLimit msg \<and> sendMail e i (last (sent st)) = Some msg \<and>
                 emailWorker e j r = (Failed (TransportError msg), st)"
  proof (cases "sent st = []")
    case True
    with ex have "lastError st = None" "store st = r"
      by (simp_all add: exhausting_def)
    with True assms show ?thesis
      by (simp add: emailWorker_def)
  next
    case False
    with ex obtain msg i where "lastError st = Some (TransportError msg)" "isRateLimit msg"
      "sendMail e i (last (sent st)) = Some msg"
      by (auto simp: exhausting_def)
    with False assms show ?thesis
      by (auto simp: emailWorker_def)
  qed
  ultimately show ?thesis
    by blast
qed


subsection \<open>Where the rendered document goes\<close>

lemma invoiceKey_inj [simp]: "invoiceKey a = invoiceKey b \<longleftrightarrow> a = b"
  by (simp add: invoiceKey_def)











text \<open>
  C6: for a pool of size \<open>n\<close>, the start offsets of the jobs with indices \<open>0 .. n - 1\<close>
  (the sender index at loop counter 0, the job index modulo \<open>n\<close>) are \<open>0 .. n - 1\<close>,
  each once: every position of the pool is the start of exactly one of these jobs,
  and the job with index \<open>k\<close> starts at the \<open>k\<close>-th sender of the pool.
\<close>

theorem rotation_start_offsets:
  "map (\<lambda>k. senderIndex k 0 n) [0..<n] = [0..<n] \<and>
   (\<forall>k. senderIndex k 0 n = k mod n) \<and>
   (\<forall>p<n. \<exists>!k. k < n \<and> senderIndex k 0 n = p) \<and>
   (\<forall>k<length (senderPool j). candidateSender (j\<lparr>jobIndex := k\<rparr>) 0 = senderPool j ! k)"
proof (intro conjI)
  show "map (\<lambda>k. senderIndex k 0 n) [0..<n] = [0..<n]"
    by (rule map_idI) (simp add: senderIndex_def)
  show "\<forall>k. senderIndex k 0 n = k mod n"
    by (simp add: senderIndex_def)
  show "\<forall>p<n. \<exists>!k. k < n \<and> senderIndex k 0 n = p"
    by (auto simp: senderIndex_def)
  show "\<forall>k<length (senderPool j). candidateSender (j\<lparr>jobIndex := k\<rparr>) 0 = senderPool j ! k"
    by (simp add: candidateSender_def senderIndex_def)
qed




subsection \<open>The claims at concrete jobs\<close>

text \<open>Two senders, a job for one recipient with a chosen delivery method and pool, and
  an outside world in which every rendering succeeds and the transport answers attempt
  \<open>i\<close> with \<open>answers i\<close>.\<close>

definition senderA :: sender where
  "senderA = \<lparr>email = ''a@mail.test'', appPassword = ''pw-a'', host = None, port = None\<rparr>"

definition senderB :: sender where
  "senderB = \<lparr>email = ''b@mail.test'', appPassword = ''pw-b'',
     host = Some ''smtp.mail.test'', port = Some ''587''\<rparr>"

definition exampleJob :: "string option \<Rightarrow> sender list \<Rightarrow> job" where
  "exampleJob method pool =
     \<lparr>jobIndex = 0, recipientEmail = Some ''client@example.com'', senderPool = pool,
       deliveryMethod = method\<rparr>"

definition exampleEnv :: "(nat \<Rightarrow> string option) \<Rightarrow> env" where
  "exampleEnv answers =
     \<lparr>renderPdf = (\<lambda>i. Inr ''%PDF''), sendMail = (\<lambda>i m. answers i),
       base64 = (\<lambda>s. ''JVBERg==''), invoiceNumber = ''INV-1A2B3C4D''\<rparr>"

definition pausedA :: redis where
  "pausedA = setex Map.empty (pausedKey ''a@mail.test'') 3600 ''true''"

lemmas worker_eval =
  emailWorker_def rotationLoop.simps attempt_def trySend_def exampleEnv_def exampleJob_def
  senderA_def senderB_def pausedA_def initial_def candidateSender_def senderIndex_def
  isPaused_def redis_get_def truthy_def setex_def pausedKey_def invoiceKey_def
  deliveryMethodOf_def isRateLimit_def mailOf_def

text \<open>
  C3, as the claim states it: a pool of one sender whose send is answered with a
  rate-limit-shaped error. The pause flag is set, but the reason of the failure is that
  transport error (\<open>if (lastError) throw lastError\<close>), not the "all senders paused"
  error.
\<close>

theorem pool_of_one_rate_limited_counterexample:
  "fst (emailWorker (exampleEnv (\<lambda>i. Some ''421 Rate Limit'')) (exampleJob None [senderA])
          Map.empty) = Failed (TransportError ''421 Rate Limit'') \<and>
   fst (emailWorker (exampleEnv (\<lambda>i. Some ''421 Rate Limit'')) (exampleJob None [senderA])
          Map.empty) \<noteq> Failed AllSendersPaused \<and>
   isPaused (store (snd (emailWorker (exampleEnv (\<lambda>i. Some ''421 Rate Limit''))
          (exampleJob None [senderA]) Map.empty))) ''a@mail.test''"
  by (simp add: worker_eval)


text \<open>C1 at a pool of two whose first sender is paused: the job goes out through the
  second.\<close>

theorem paused_sender_is_skipped_witness:
  "isPaused pausedA ''a@mail.test'' \<and>
   attempt (exampleEnv (\<lambda>i. None)) (exampleJob None [senderA, senderB]) 0 (initial pausedA) =
     Continue (initial pausedA) \<and>
   rotationLoop (exampleEnv (\<lambda>i. None)) (exampleJob None [senderA, senderB]) 0 (initial pausedA) =
     rotationLoop (exampleEnv (\<lambda>i. None)) (exampleJob None [senderA, senderB]) 1 (initial pausedA) \<and>
   (\<forall>n. fst (emailWorker (exampleEnv (\<lambda>i. None)) (exampleJob None [senderA, senderB]) pausedA)
      \<noteq> Completed n ''a@mail.test'') \<and>
   fst (emailWorker (exampleEnv (\<lambda>i. None)) (exampleJob None [senderA, senderB]) pausedA) =
     Completed ''INV-1A2B3C4D'' ''b@mail.test''"
proof -
  let ?e = "exampleEnv (\<lambda>i. None)" and ?j = "exampleJob None [senderA, senderB]"
  have p: "isPaused pausedA ''a@mail.test''"
    by (simp add: worker_eval)
  have c: "email (candidateSender ?j 0) = ''a@mail.test''" "0 < length (senderPool ?j)"
    "store (initial pausedA) = pausedA"
    by (simp_all add: worker_eval)
  have r: "fst (emailWorker ?e ?j pausedA) = Completed ''INV-1A2B3C4D'' ''b@mail.test''"
    by (simp add: worker_eval)
  from p c r show ?thesis
    using paused_sender_is_skipped [of 0 ?j "initial pausedA" ?e pausedA "''a@mail.test''"]
    by simp
qed


text \<open>C2 at a pool of two: the first send is answered with a rate limit, the second
  with a refused connection.\<close>

theorem transport_error_classification_witness:
  "isRateLimit ''421 Rate Limit'' \<and> \<not> isRateLimit ''connect ECONNREFUSED'' \<and>
   (\<exists>st'. attempt (exampleEnv (\<lambda>i. if i = 0 then Some ''421 Rate Limit''
                                   else Some ''connect ECONNREFUSED''))
            (exampleJob None [senderA, senderB]) 0 (initial Map.empty) = Continue st' \<and>
          store st' (pausedKey ''a@mail.test'') = Some (''true'', 3600)) \<and>
   (\<exists>st'. emailWorker (exampleEnv (\<lambda>i. if i = 0 then Some ''421 Rate Limit''
                                       else Some ''connect ECONNREFUSED''))
            (exampleJob None [senderA, senderB]) Map.empty =
            (Failed (TransportError ''connect ECONNREFUSED''), st') \<and>
          length (sent st') = 2)"
proof -
  let ?e = "exampleEnv (\<lambda>i. if i = 0 then Some ''421 Rate Limit''
                            else Some ''connect ECONNREFUSED'')"
  let ?j = "exampleJob None [senderA, senderB]"
  have rl: "isRateLimit ''421 Rate Limit''" and nrl: "\<not> isRateLimit ''connect ECONNREFUSED''"
    by (simp_all add: isRateLimit_def)
  have j: "senderPool ?j \<noteq> []" "recipientEmail ?j \<noteq> None" "0 < length (senderPool ?j)"
    "Suc 0 < length (senderPool ?j)"
    by (simp_all add: exampleJob_def)
  have e: "renderPdf ?e 0 = Inr ''%PDF''" "renderPdf ?e (Suc 0) = Inr ''%PDF''"
    "sendMail ?e 0 (mailOf ?e ?j 0 ''%PDF'') = Some ''421 Rate Limit''"
    "sendMail ?e (Suc 0) (mailOf ?e ?j (Suc 0) ''%PDF'') = Some ''connect ECONNREFUSED''"
    by (simp_all add: exampleEnv_def)
  have c: "email (candidateSender ?j 0) = ''a@mail.test''"
    "email (candidateSender ?j (Suc 0)) = ''b@mail.test''"
    by (simp_all add: worker_eval)
  have np0: "\<not> isPaused (store (initial Map.empty)) (email (candidateSender ?j 0))"
    by (simp add: worker_eval)
  from transport_error_classification [OF j(1,2) reaches.start j(3) np0 e(1,3)] rl
  obtain st1 where st1: "attempt ?e ?j 0 (initial Map.empty) = Continue st1"
    "reaches ?e ?j Map.empty (Suc 0) st1"
    "store st1 (pausedKey (email (candidateSender ?j 0))) = Some (''true'', 3600)"
    "sent st1 = sent (initial Map.empty) @ [mailOf ?e ?j 0 ''%PDF'']"
    by auto
  have "attempt ?e ?j 0 (initial Map.empty) =
      Continue (initial Map.empty\<lparr>selectedSender := Some senderA,
        store := setex Map.empty (pausedKey ''a@mail.test'') 3600 ''true'',
        sent := [mailOf ?e ?j 0 ''%PDF''],
        lastError := Some (TransportError ''421 Rate Limit'')\<rparr>)"
    by (simp add: worker_eval)
  with st1(1) have "st1 = initial Map.empty\<lparr>selectedSender := Some senderA,
        store := setex Map.empty (pausedKey ''a@mail.test'') 3600 ''true'',
        sent := [mailOf ?e ?j 0 ''%PDF''],
        lastError := Some (TransportError ''421 Rate Limit'')\<rparr>"
    by simp
  then have "store st1 = setex Map.empty (pausedKey ''a@mail.test'') 3600 ''true''"
    by simp
  then have np1: "\<not> isPaused (store st1) (email (candidateSender ?j (Suc 0)))"
    by (simp add: c isPaused_setex_paused) (simp add: worker_eval)
  from transport_error_classification [OF j(1,2) st1(2) j(4) np1 e(2,4)] nrl
  obtain st2 where "emailWorker ?e ?j Map.empty =
      (Failed (TransportError ''connect ECONNREFUSED''), st2)"
    "sent st2 = sent st1 @ [mailOf ?e ?j (Suc 0) ''%PDF'']"
    by auto
  with st1(4) have "\<exists>st'. emailWorker ?e ?j Map.empty =
      (Failed (TransportError ''connect ECONNREFUSED''), st') \<and> length (sent st') = 2"
    by (simp add: initial_def)
  moreover from st1(1,3) c(1)
  have "\<exists>st'. attempt ?e ?j 0 (initial Map.empty) = Continue st' \<and>
      store st' (pausedKey ''a@mail.test'') = Some (''true'', 3600)"
    by simp
  ultimately show ?thesis
    using rl nrl by blast
qed

text \<open>C3, amended, at a pool of one: once with a rate-limited send, once with the sender
  paused from the start.\<close>

theorem loop_without_success_witness:
  "(\<exists>st. rotationLoop (exampleEnv (\<lambda>i. Some ''421 Rate Limit'')) (exampleJob None [senderA]) 0
           (initial Map.empty) = Finished st \<and> \<not> success st \<and> sent st \<noteq> [] \<and>
         isPaused (store st) ''a@mail.test'' \<and>
         (\<exists>msg. isRateLimit msg \<and>
            emailWorker (exampleEnv (\<lambda>i. Some ''421 Rate Limit'')) (exampleJob None [senderA])
              Map.empty = (Failed (TransportError msg), st))) \<and>
   emailWorker (exampleEnv (\<lambda>i. None)) (exampleJob None [senderA]) pausedA =
     (Failed AllSendersPaused, initial pausedA)"
proof -
  let ?e = "exampleEnv (\<lambda>i. Some ''421 Rate Limit'')" and ?j = "exampleJob None [senderA]"
  let ?st = "initial Map.empty\<lparr>selectedSender := Some senderA,
        store := setex Map.empty (pausedKey ''a@mail.test'') 3600 ''true'',
        sent := [mailOf ?e ?j 0 ''%PDF''],
        lastError := Some (TransportError ''421 Rate Limit'')\<rparr>"
  have j: "senderPool ?j \<noteq> []" "recipientEmail ?j \<noteq> None" "senderA \<in> set (senderPool ?j)"
    by (simp_all add: exampleJob_def)
  have l: "rotationLoop ?e ?j 0 (initial Map.empty) = Finished ?st"
    by (simp add: worker_eval)
  have s: "\<not> success ?st" "sent ?st \<noteq> []"
    by (simp_all add: initial_def)
  from loop_without_success [OF j(1,2) l s(1)] s(2) j(3)
  have "isPaused (store ?st) (email senderA)"
    and "\<exists>msg. isRateLimit msg \<and> emailWorker ?e ?j Map.empty = (Failed (TransportError msg), ?st)"
    by auto
  with l s have first: "\<exists>st. rotationLoop ?e ?j 0 (initial Map.empty) = Finished st \<and>
      \<not> success st \<and> sent st \<noteq> [] \<and> isPaused (store st) ''a@mail.test'' \<and>
      (\<exists>msg. isRateLimit msg \<and> emailWorker ?e ?j Map.empty = (Failed (TransportError msg), st))"
    by (auto simp: senderA_def)
  let ?e' = "exampleEnv (\<lambda>i. None)"
  have l': "rotationLoop ?e' ?j 0 (initial pausedA) = Finished (initial pausedA)"
    by (simp add: worker_eval)
  have s': "\<not> success (initial pausedA)" "sent (initial pausedA) = []"
    by (simp_all add: initial_def)
  from loop_without_success [OF j(1,2) l' s'(1)] s'(2)
  have "emailWorker ?e' ?j pausedA = (Failed AllSendersPaused, initial pausedA)"
    by simp
  with first show ?thesis
    by blast
qed


text \<open>C6 at a pool of three positions.\<close>

theorem rotation_start_offsets_witness:
  "map (\<lambda>k. senderIndex k 0 3) [0..<3] = [0, 1, 2] \<and>
   senderIndex 7 0 3 = 1 \<and>
   (\<exists>!k. k < 3 \<and> senderIndex k 0 3 = 2) \<and>
   candidateSender (exampleJob None [senderA, senderB]\<lparr>jobIndex := 1\<rparr>) 0 = senderB"
proof -
  have u: "[0..<3] = [0, 1, 2::nat]"
    by (simp add: upt_rec)
  have l: "(1::nat) < length (senderPool (exampleJob None [senderA, senderB]))" "(2::nat) < 3"
    by (simp_all add: exampleJob_def)
  have n: "senderPool (exampleJob None [senderA, senderB]) ! 1 = senderB" "(7::nat) mod 3 = 1"
    by (simp_all add: exampleJob_def)
  from u l n show ?thesis
    using rotation_start_offsets [of 3 "exampleJob None [senderA, senderB]"]
    by metis
qed




section \<open>The pre-flight security gate (src/unnamed/part_000, lines 1-276, segMiddleware)\<close>

text \<open>
  A flag is an object with a \<open>type\<close>, a \<open>reason\<close> and further fields that depend
  on the check (\<open>domain\<close>, \<open>url\<close>, \<open>element\<close>, ...), kept as pairs of a field name
  and its text.
\<close>

record securityFlag =
  flagType :: string
  flagReason :: string
  flagContext :: "(string \<times> string) list"

text \<open>The effects of the gate that leave no trace in its result: what it writes to
  the console, which scan it ran, and which name it asked the DNS resolver for.\<close>

datatype event =
    Logged string
  | CloakingScan
  | LinkScan
  | ResolvedTxt string

text \<open>\<open>dns.resolveTxt\<close>: the TXT records of a name, each a list of chunks, or the
  \<open>code\<close> of the error the resolver throws.\<close>

datatype dns_answer = Records "string list list" | DnsError string

text \<open>
  The two DOM scans walk a tree that the \<open>cheerio\<close> library parses from the body.
  The library is not part of the repository, so the walk over the parsed tree is a
  parameter (\<open>walk\<close>); the guard in front of it is the source's.
\<close>

definition scanHtmlDomForCloaking ::
    "(string \<Rightarrow> securityFlag list) \<Rightarrow> string \<Rightarrow> securityFlag list" where
  "scanHtmlDomForCloaking walk htmlBody = (if htmlBody = [] then [] else walk htmlBody)"

definition scanLinkIntegrity ::
    "(string \<Rightarrow> securityFlag list) \<Rightarrow> string \<Rightarrow> securityFlag list" where
  "scanLinkIntegrity walk htmlBody = (if htmlBody = [] then [] else walk htmlBody)"

definition invalidSenderFlag :: securityFlag where
  "invalidSenderFlag =
     \<lparr>flagType = ''Infrastructure Error'',
       flagReason = ''Invalid sender email format provided.'', flagContext = []\<rparr>"

definition hasRecord :: "string \<Rightarrow> string list list \<Rightarrow> bool" where
  "hasRecord tag records = list_ex (\<lambda>recordArray. startsWith (concat recordArray) tag) records"

definition notFound :: "string \<Rightarrow> bool" where
  "notFound code \<longleftrightarrow> code = ''ENOTFOUND'' \<or> code = ''ENODATA''"

text \<open>The SPF lookup of \<open>verifyInfrastructure\<close>, with its \<open>try\<close> and \<open>catch\<close>.\<close>

definition checkSpf :: "(string \<Rightarrow> dns_answer) \<Rightarrow> string \<Rightarrow> securityFlag list \<times> event list" where
  "checkSpf resolveTxt domain =
     (case resolveTxt domain of
        Records spfRecordsRaw \<Rightarrow>
          (if hasRecord ''v=spf1'' spfRecordsRaw then []
           else [\<lparr>flagType = ''Critical Delivery Risk (Infrastructure Hijacking)'',
                   flagReason = ''No valid SPF record (v=spf1) found for domain '' @ domain @
                     ''. Senders without SPF are automatically assumed to be spoofing or hijacking infrastructure and will be dropped by Yahoo/AOL.'',
                   flagContext = [(''domain'', domain)]\<rparr>],
           [ResolvedTxt domain])
      | DnsError code \<Rightarrow>
          (if notFound code
           then ([\<lparr>flagType = ''Critical Delivery Risk (SPF)'',
                    flagReason = ''Failed to resolve TXT / SPF records for domain '' @ domain @
                      '' ('' @ code @ '').'',
                    flagContext = [(''domain'', domain)]\<rparr>],
                 [ResolvedTxt domain])
           else ([], [ResolvedTxt domain, Logged (''[SEG] DNS SPF Lookup Error for '' @ domain @ '':'')])))"

text \<open>The DMARC lookup, at \<open>_dmarc.<domain>\<close>.\<close>

definition checkDmarc :: "(string \<Rightarrow> dns_answer) \<Rightarrow> string \<Rightarrow> securityFlag list \<times> event list" where
  "checkDmarc resolveTxt domain =
     (let dmarcDomain = ''_dmarc.'' @ domain
      in case resolveTxt dmarcDomain of
           Records dmarcRecordsRaw \<Rightarrow>
             (if hasRecord ''v=DMARC1'' dmarcRecordsRaw then []
              else [\<lparr>flagType = ''Critical Delivery Risk (Infrastructure Hijacking)'',
                      flagReason = ''No valid DMARC record (v=DMARC1) found at '' @ dmarcDomain @
                        ''. Major providers strictly mandate DMARC alignment.'',
                      flagContext = [(''domain'', dmarcDomain)]\<rparr>],
              [ResolvedTxt dmarcDomain])
         | DnsError code \<Rightarrow>
             (if notFound code
              then ([\<lparr>flagType = ''Critical Delivery Risk (DMARC)'',
                       flagReason = ''Failed to resolve DMARC records. Major providers strictly mandate DMARC alignment.'',
                       flagContext = [(''domain'', dmarcDomain)]\<rparr>],
                    [ResolvedTxt dmarcDomain])
              else ([], [ResolvedTxt dmarcDomain, Logged (''[SEG] DNS DMARC Lookup Error for '' @ domain @ '':'')])))"

text \<open>
  \<open>verifyInfrastructure(emailAddress)\<close>; \<open>None\<close> is \<open>null\<close> or \<open>undefined\<close>. The
  domain is the piece after the first \<open>@\<close>, which exists because the address holds
  one.
\<close>

definition verifyInfrastructure ::
    "(string \<Rightarrow> dns_answer) \<Rightarrow> string option \<Rightarrow> securityFlag list \<times> event list" where
  "verifyInfrastructure resolveTxt emailAddress =
     (case emailAddress of
        None \<Rightarrow> ([invalidSenderFlag], [])
      | Some a \<Rightarrow>
          if a = [] \<or> \<not> str_includes a ''@'' then ([invalidSenderFlag], [])
          else
            (let domain = split CHR ''@'' a ! 1;
                 spf = checkSpf resolveTxt domain;
                 dmarc = checkDmarc resolveTxt domain
             in (fst spf @ fst dmarc, snd spf @ snd dmarc)))"

text \<open>The analyzer: the three checks, their flags concatenated.\<close>

record scanners =
  cloakingDom :: "string \<Rightarrow> securityFlag list"
  linkDom :: "string \<Rightarrow> securityFlag list"
  resolveTxt :: "string \<Rightarrow> dns_answer"

definition runPreFlightCheck ::
    "scanners \<Rightarrow> string \<Rightarrow> string option \<Rightarrow> securityFlag list \<times> event list" where
  "runPreFlightCheck sc htmlBody senderEmail =
     (let cloakingWarnings = scanHtmlDomForCloaking (cloakingDom sc) htmlBody;
          linkWarnings = scanLinkIntegrity (linkDom sc) htmlBody;
          infra = verifyInfrastructure (resolveTxt sc) senderEmail
      in (cloakingWarnings @ linkWarnings @ fst infra, [CloakingScan, LinkScan] @ snd infra))"

text \<open>The body of a dispatch request, as far as the gate reads it. A field is \<open>None\<close>
  when it is missing; \<open>reqSenderPool\<close> is also \<open>None\<close> when it is not an array.\<close>

record request =
  emailBody :: "string option"
  reqSenderPool :: "sender list option"

datatype gate_result = Next | Rejected "securityFlag list"

definition primarySenderEmail :: "request \<Rightarrow> string option" where
  "primarySenderEmail req =
     (case reqSenderPool req of
        None \<Rightarrow> None
      | Some [] \<Rightarrow> None
      | Some (s # rest) \<Rightarrow> Some (email s))"

text \<open>
  The middleware: \<open>Next\<close> hands the request to the dispatch handler, \<open>Rejected\<close> is
  the answer with status 400 and the flags. The \<open>catch\<close> that answers 500 guards
  against exceptions of the library calls, which the model does not have.
\<close>

definition segMiddleware :: "scanners \<Rightarrow> request \<Rightarrow> gate_result \<times> event list" where
  "segMiddleware sc req =
     (case emailBody req of
        None \<Rightarrow> (Next, [])
      | Some body \<Rightarrow>
          if body = [] then (Next, [])
          else
            (let primary = primarySenderEmail req;
                 warned =
                   (if primary = None \<or> primary = Some []
                    then [Logged ''[SEG] No senderPool provided; skipping infrastructure verification.'']
                    else []);
                 scan = runPreFlightCheck sc body primary;
                 events = warned @ [Logged ''[SEG] Initiating Pre-Flight Security Scan...''] @ snd scan
             in if fst scan \<noteq> []
                then (Rejected (fst scan), events @ [Logged ''[SEG] Payload REJECTED. Security flags triggered:''])
                else (Next, events @ [Logged ''[SEG] Pre-Flight Scan Passed. Payload cleared for dispatch.''])))"

text \<open>Without a sender the analyzer still runs the infrastructure check, and the
  check answers a missing address with a flag.\<close>

lemma verifyInfrastructure_no_sender:
  "a = None \<or> a = Some [] \<Longrightarrow> verifyInfrastructure dns a = ([invalidSenderFlag], [])"
  by (auto simp: verifyInfrastructure_def)

lemma segMiddleware_no_sender:
  assumes "emailBody req = Some body" and "body \<noteq> []"
    and "primarySenderEmail req = None \<or> primarySenderEmail req = Some []"
  shows "\<exists>flags events. segMiddleware sc req = (Rejected flags, events) \<and>
           invalidSenderFlag \<in> set flags \<and>
           Logged ''[SEG] No senderPool provided; skipping infrastructure verification.''
             \<in> set events"
  using assms verifyInfrastructure_no_sender [of "primarySenderEmail req" "resolveTxt sc"]
  by (auto simp: segMiddleware_def runPreFlightCheck_def Let_def)

text \<open>
  C10: for a dispatch request whose email body is missing or empty, the gate admits
  the request to the handler whatever the scans and the resolver would say, and it
  does nothing on the way: no cloaking scan, no link scan, no DNS lookup, no line on
  the console.
\<close>

theorem empty_body_bypasses_gate:
  "emailBody req = None \<or> emailBody req = Some [] \<Longrightarrow> segMiddleware sc req = (Next, [])"
  by (auto simp: segMiddleware_def)


definition benignScanners :: scanners where
  "benignScanners =
     \<lparr>cloakingDom = (\<lambda>body. []), linkDom = (\<lambda>body. []),
       resolveTxt = (\<lambda>name. Records [[''v=spf1 include:_spf.mail.test -all''],
                                      [''v=DMARC1; p=reject'']])\<rparr>"

theorem empty_body_bypasses_gate_witness:
  "segMiddleware benignScanners \<lparr>emailBody = Some [], reqSenderPool = Some [senderA]\<rparr> =
     (Next, []) \<and>
   segMiddleware benignScanners \<lparr>emailBody = None, reqSenderPool = None\<rparr> = (Next, [])"
  using empty_body_bypasses_gate [of "\<lparr>emailBody = Some [], reqSenderPool = Some [senderA]\<rparr>"
      benignScanners]
    empty_body_bypasses_gate [of "\<lparr>emailBody = None, reqSenderPool = None\<rparr>" benignScanners]
  by simp

text \<open>
  C7 at a request with a harmless body, scans that find nothing and no sender: the
  gate writes that it skips the infrastructure verification, runs the analyzer with
  no address all the same, and rejects the batch with the flag that
  \<open>verifyInfrastructure\<close> gives for a missing address. With a sender whose domain
  has both records, the same body passes.
\<close>

theorem no_sender_is_flagged:
  "segMiddleware benignScanners \<lparr>emailBody = Some ''<p>Hello</p>'', reqSenderPool = Some []\<rparr> =
     (Rejected [invalidSenderFlag],
      [Logged ''[SEG] No senderPool provided; skipping infrastructure verification.'',
       Logged ''[SEG] Initiating Pre-Flight Security Scan...'',
       CloakingScan, LinkScan,
       Logged ''[SEG] Payload REJECTED. Security flags triggered:'']) \<and>
   fst (segMiddleware benignScanners
          \<lparr>emailBody = Some ''<p>Hello</p>'', reqSenderPool = None\<rparr>) =
     Rejected [invalidSenderFlag] \<and>
   fst (segMiddleware benignScanners
          \<lparr>emailBody = Some ''<p>Hello</p>'', reqSenderPool = Some [senderA]\<rparr>) = Next"
  by (simp add: segMiddleware_def primarySenderEmail_def runPreFlightCheck_def
      scanHtmlDomForCloaking_def scanLinkIntegrity_def verifyInfrastructure_def
      benignScanners_def senderA_def checkSpf_def checkDmarc_def hasRecord_def Let_def)

section \<open>Clearing the queue and asking for the status (src/unnamed/part_000, lines 437-518)\<close>

text \<open>
  The queue is the \<open>bullmq\<close> library's: the jobs it holds per category, under keys
  of its own in Redis, and whether it is paused. The telemetry list is the Redis
  list \<open>live_dispatch_logs\<close> that \<open>emitLiveLog\<close> appends to through the plain
  connection; an entry is the object that is written as JSON and parsed again on
  reading.
\<close>

record jobQueue =
  waitJobs :: "job list"
  activeJobs :: "job list"
  delayedJobs :: "job list"
  completedJobs :: "job list"
  failedJobs :: "job list"
  queuePaused :: bool

record telemetryEvent =
  eventId :: string
  eventJobId :: string
  eventMessage :: string
  eventType :: string
  eventTime :: string

record server =
  invoiceQueue :: jobQueue
  live_dispatch_logs :: "telemetryEvent list"

text \<open>\<open>rpush\<close> and \<open>ltrim(-100, -1)\<close>: append, then keep the last 100.\<close>

definition emitLiveLog :: "telemetryEvent \<Rightarrow> server \<Rightarrow> server" where
  "emitLiveLog logEntry srv =
     (let pushed = live_dispatch_logs srv @ [logEntry]
      in srv\<lparr>live_dispatch_logs := drop (length pushed - 100) pushed\<rparr>)"

text \<open>\<open>obliterate\<close> removes the queue with all its jobs; \<open>clean(0, limit, category)\<close>
  removes up to \<open>limit\<close> jobs of one category.\<close>

definition obliterate :: "jobQueue \<Rightarrow> jobQueue" where
  "obliterate q =
     \<lparr>waitJobs = [], activeJobs = [], delayedJobs = [], completedJobs = [],
       failedJobs = [], queuePaused = False\<rparr>"

definition clean :: "nat \<Rightarrow> job list \<Rightarrow> job list" where
  "clean limit jobs = drop limit jobs"

text \<open>
  The handler of \<open>DELETE /api/dispatch/clear\<close>. \<open>locked\<close> says whether
  \<open>obliterate\<close> throws; then the queue is paused, swept category by category and
  resumed. Neither path touches the connection.
\<close>

definition dispatchClear :: "bool \<Rightarrow> server \<Rightarrow> server" where
  "dispatchClear locked srv =
     (if \<not> locked then srv\<lparr>invoiceQueue := obliterate (invoiceQueue srv)\<rparr>
      else
        (let q = invoiceQueue srv
         in srv\<lparr>invoiceQueue :=
               \<lparr>waitJobs = clean 100000 (waitJobs q),
                 activeJobs = clean 100000 (activeJobs q),
                 delayedJobs = clean 100000 (delayedJobs q),
                 completedJobs = clean 100000 (completedJobs q),
                 failedJobs = clean 100000 (failedJobs q),
                 queuePaused = False\<rparr>\<rparr>))"

text \<open>The answer of \<open>GET /api/dispatch-status\<close>, as far as the claim reads it: the
  four counts and the telemetry list.\<close>

record statusResponse =
  waitingCount :: nat
  activeCount :: nat
  completedCount :: nat
  failedCount :: nat
  liveLogs :: "telemetryEvent list"

definition dispatchStatus :: "server \<Rightarrow> statusResponse" where
  "dispatchStatus srv =
     \<lparr>waitingCount = length (waitJobs (invoiceQueue srv)),
       activeCount = length (activeJobs (invoiceQueue srv)),
       completedCount = length (completedJobs (invoiceQueue srv)),
       failedCount = length (failedJobs (invoiceQueue srv)),
       liveLogs = live_dispatch_logs srv\<rparr>"

text \<open>A server after one job: the job is among the completed ones and the worker has
  emitted one event for it.\<close>

definition firstEvent :: telemetryEvent where
  "firstEvent =
     \<lparr>eventId = ''1'', eventJobId = ''1'', eventMessage = ''Generating PDF Attachment...'',
       eventType = ''info'', eventTime = ''10:41:07''\<rparr>"

definition afterOneJob :: server where
  "afterOneJob =
     emitLiveLog firstEvent
       \<lparr>invoiceQueue =
          \<lparr>waitJobs = [], activeJobs = [], delayedJobs = [],
            completedJobs = [exampleJob None [senderA]], failedJobs = [],
            queuePaused = False\<rparr>,
         live_dispatch_logs = []\<rparr>"

lemma dispatchClear_keeps_logs:
  "liveLogs (dispatchStatus (dispatchClear locked srv)) = live_dispatch_logs srv"
  by (simp add: dispatchStatus_def dispatchClear_def Let_def)

text \<open>
  C8 at that server: before the clear the status query counts one completed job and
  returns the event; after the clear, on either path of the handler, the four counts
  are zero and the query still returns the event.
\<close>

theorem clear_leaves_telemetry:
  "dispatchStatus afterOneJob =
     \<lparr>waitingCount = 0, activeCount = 0, completedCount = 1, failedCount = 0,
       liveLogs = [firstEvent]\<rparr> \<and>
   dispatchStatus (dispatchClear False afterOneJob) =
     \<lparr>waitingCount = 0, activeCount = 0, completedCount = 0, failedCount = 0,
       liveLogs = [firstEvent]\<rparr> \<and>
   dispatchStatus (dispatchClear True afterOneJob) =
     \<lparr>waitingCount = 0, activeCount = 0, completedCount = 0, failedCount = 0,
       liveLogs = [firstEvent]\<rparr>"
  by (simp add: dispatchStatus_def dispatchClear_def emitLiveLog_def afterOneJob_def
      obliterate_def clean_def)


end
